theory Spec2Isabelle
  imports Main "HOL-Library.Word" "HOL-Library.Multiset"
begin

unbundle bit_operations_syntax

section \<open>CoAP header options: the extended-field codec and the option container\<close>

text \<open>
  A shallow embedding of \<^verbatim>\<open>src/iot/options.py\<close>. Python integers are \<open>int\<close>, a
  \<^verbatim>\<open>bytes\<close> object is a list of 8-bit words, an exception is the \<open>Inl\<close> branch of a
  sum, and the methods of the class \<^verbatim>\<open>Options\<close> pass the object explicitly.
\<close>

subsection \<open>Python values\<close>

type_synonym byte = "8 word"

datatype error = ValueError | IndexError | StructError | TypeError

text \<open>
  What \<^verbatim>\<open>Options.decode\<close> hands back: a \<^verbatim>\<open>bytes\<close> object on one path and a
  \<^verbatim>\<open>str\<close> on the other. In Python 3 the two types are distinct
  (\<^verbatim>\<open>'' == b''\<close> is false).
\<close>

datatype pyseq = Bytes "byte list" | Str string

text \<open>The slices \<^verbatim>\<open>xs[:k]\<close> and \<open>xs[k:]\<close>; a negative bound counts from the end.\<close>

definition slice_to :: "int \<Rightarrow> 'a list \<Rightarrow> 'a list" where
  "slice_to k xs = (if 0 \<le> k then take (nat k) xs else take (length xs - nat (- k)) xs)"

definition slice_from :: "int \<Rightarrow> 'a list \<Rightarrow> 'a list" where
  "slice_from k xs = (if 0 \<le> k then drop (nat k) xs else drop (length xs - nat (- k)) xs)"

text \<open>
  \<^verbatim>\<open>bytes([x])\<close> raises ValueError unless every element is in \<open>range(256)\<close>.
\<close>

definition py_bytes :: "int list \<Rightarrow> error + byte list" where
  "py_bytes xs =
     (if list_all (\<lambda>x. 0 \<le> x \<and> x < 256) xs then Inr (map word_of_int xs) else Inl ValueError)"

text \<open>
  Modelled from the spec: the module \<^verbatim>\<open>numbers\<close>, star-imported by the source, is
  not part of the sources at hand; the name \<^verbatim>\<open>struct\<close> that reaches
  \<^verbatim>\<open>options.py\<close> through it is taken to be the standard library module, with the
  formats the spec names: \<^verbatim>\<open>!B\<close> one unsigned byte, \<^verbatim>\<open>!H\<close> an unsigned
  big-endian 16-bit integer. \<^verbatim>\<open>struct.pack\<close> raises \<^verbatim>\<open>struct.error\<close> on a
  number out of the format's range, \<^verbatim>\<open>struct.unpack\<close> on a buffer of the wrong size.
\<close>

definition struct_pack_B :: "int \<Rightarrow> error + byte list" where
  "struct_pack_B v = (if 0 \<le> v \<and> v < 256 then Inr [word_of_int v] else Inl StructError)"

definition struct_pack_H :: "int \<Rightarrow> error + byte list" where
  "struct_pack_H v =
     (if 0 \<le> v \<and> v < 65536 then Inr [word_of_int (v div 256), word_of_int (v mod 256)]
      else Inl StructError)"

definition struct_unpack_H :: "byte list \<Rightarrow> error + int" where
  "struct_unpack_H bs =
     (case bs of [hi, lo] \<Rightarrow> Inr (uint hi * 256 + uint lo) | _ \<Rightarrow> Inl StructError)"

subsection \<open>The extended field value\<close>

definition readExtendedFieldValue :: "int \<Rightarrow> byte list \<Rightarrow> error + (int \<times> byte list)" where
  "readExtendedFieldValue v rawdata =
     (if v \<ge> 0 \<and> v < 13 then Inr (v, rawdata)
      else if v = 13 then
        (case rawdata of
           [] \<Rightarrow> Inl IndexError
         | b # _ \<Rightarrow> Inr (uint b + 13, slice_from 1 rawdata))
      else if v = 14 then
        (case struct_unpack_H (slice_to 2 rawdata) of
           Inl e \<Rightarrow> Inl e
         | Inr x \<Rightarrow> Inr (x + 269, slice_from 2 rawdata))
      else Inl ValueError)"

definition writeExtendedFieldValue :: "int \<Rightarrow> error + (int \<times> byte list)" where
  "writeExtendedFieldValue v =
     (if v \<ge> 0 \<and> v < 13 then Inr (v, [])
      else if v \<ge> 13 \<and> v < 269 then
        (case struct_pack_B (v - 13) of Inl e \<Rightarrow> Inl e | Inr ext \<Rightarrow> Inr (13, ext))
      else if v \<ge> 269 \<and> v < 65804 then
        (case struct_pack_H (v - 269) of Inl e \<Rightarrow> Inl e | Inr ext \<Rightarrow> Inr (14, ext))
      else Inl ValueError)"

subsection \<open>Option instances\<close>

text \<open>
  Modelled from the spec: the option classes and \<^verbatim>\<open>OptionNumber.create_option\<close>
  live in modules that are not part of the sources at hand. The spec gives an instance
  an integer \<^verbatim>\<open>number\<close>, a byte length \<^verbatim>\<open>length\<close>, a \<^verbatim>\<open>value\<close> and
  \<^verbatim>\<open>encode()\<close>, built by a factory from raw bytes or from a value. The instance
  modelled here is the opaque one the claims speak of: a number and its raw bytes; its
  value is the raw bytes, its length their count, and \<^verbatim>\<open>encode()\<close> returns them.
\<close>

record coap_option =
  number :: int
  raw :: "byte list"

definition create_option_decode :: "int \<Rightarrow> byte list \<Rightarrow> coap_option" where
  "create_option_decode option_number rawdata = \<lparr>number = option_number, raw = rawdata\<rparr>"

definition create_option_value :: "int \<Rightarrow> byte list \<Rightarrow> coap_option" where
  "create_option_value option_number v = \<lparr>number = option_number, raw = v\<rparr>"

definition opt_length :: "coap_option \<Rightarrow> int" where
  "opt_length opt = int (length (raw opt))"

definition opt_encode :: "coap_option \<Rightarrow> byte list" where
  "opt_encode opt = raw opt"

subsection \<open>The container\<close>

text \<open>
  The attribute \<^verbatim>\<open>_options\<close> is a dict from option number to the list of the
  instances with that number. A dict keeps its keys in insertion order, and
  \<^verbatim>\<open>optionList\<close> sorts its values from that order, so the dict is an association
  list in insertion order; every operation works on the first entry of a key, and the
  states the operations build hold each key once.
\<close>

type_synonym Options = "(int \<times> coap_option list) list"

definition Options_init :: Options where
  "Options_init = []"

text \<open>\<^verbatim>\<open>d.setdefault(k, []).append(x)\<close>\<close>

fun setdefault_append :: "int \<Rightarrow> coap_option \<Rightarrow> Options \<Rightarrow> Options" where
  "setdefault_append k x [] = [(k, [x])]"
| "setdefault_append k x ((k', v) # d) =
     (if k' = k then (k', v @ [x]) # d else (k', v) # setdefault_append k x d)"

text \<open>\<^verbatim>\<open>d.pop(k)\<close> for a key that is present\<close>

fun dict_pop :: "int \<Rightarrow> Options \<Rightarrow> Options" where
  "dict_pop k [] = []"
| "dict_pop k ((k', v) # d) = (if k' = k then d else (k', v) # dict_pop k d)"

definition addOption :: "Options \<Rightarrow> coap_option \<Rightarrow> Options" where
  "addOption self opt = setdefault_append (number opt) opt self"

definition deleteOption :: "Options \<Rightarrow> int \<Rightarrow> Options" where
  "deleteOption self n = (if n \<in> fst ` set self then dict_pop n self else self)"

text \<open>The empty tuple that \<^verbatim>\<open>get\<close> returns for an absent key is the empty list here.\<close>

definition getOption :: "Options \<Rightarrow> int \<Rightarrow> coap_option list" where
  "getOption self n = (case map_of self n of None \<Rightarrow> [] | Some v \<Rightarrow> v)"

text \<open>
  \<^verbatim>\<open>sorted\<close> computes the key \<^verbatim>\<open>x[0].number\<close> of every value first, so one empty
  list among the values raises IndexError; it is stable, as \<open>sort_key\<close> is.
\<close>

definition optionList :: "Options \<Rightarrow> error + coap_option list" where
  "optionList self =
     (if list_ex (\<lambda>x. x = []) (map snd self) then Inl IndexError
      else Inr (concat (sort_key (\<lambda>x. number (hd x)) (map snd self))))"

subsection \<open>Encoding the header\<close>

fun encode_loop :: "byte list list \<Rightarrow> int \<Rightarrow> coap_option list \<Rightarrow> error + byte list list" where
  "encode_loop data current_opt_num [] = Inr data"
| "encode_loop data current_opt_num (opt # option_list) =
     (case writeExtendedFieldValue (number opt - current_opt_num) of
        Inl e \<Rightarrow> Inl e
      | Inr (delta, extended_delta) \<Rightarrow>
     (case writeExtendedFieldValue (opt_length opt) of
        Inl e \<Rightarrow> Inl e
      | Inr (len, extended_length) \<Rightarrow>
     (case py_bytes [push_bit 4 (delta AND 0x0F) + (len AND 0x0F)] of
        Inl e \<Rightarrow> Inl e
      | Inr head \<Rightarrow>
          encode_loop (data @ [head, extended_delta, extended_length, opt_encode opt])
            (number opt) option_list)))"

text \<open>
  The method returns its result and the container it leaves behind: the body reads
  \<^verbatim>\<open>self\<close> through \<^verbatim>\<open>optionList\<close> and assigns only to its local variables.
\<close>

definition encode :: "Options \<Rightarrow> (error + byte list) \<times> Options" where
  "encode self =
     (case optionList self of
        Inl e \<Rightarrow> (Inl e, self)
      | Inr option_list \<Rightarrow>
          (case encode_loop [] 0 option_list of
             Inl e \<Rightarrow> (Inl e, self)
           | Inr data \<Rightarrow> (Inr (concat data), self)))"

subsection \<open>Decoding the header\<close>

text \<open>
  The loop of \<^verbatim>\<open>decode\<close>, with the container, the running option number and the
  bytes left. An exception leaves the loop at once. The result on the marker is the
  \<^verbatim>\<open>bytes\<close> after it; the result when the bytes run out is the \<^verbatim>\<open>str\<close> literal
  \<^verbatim>\<open>''\<close>.
\<close>

function decode_loop :: "Options \<Rightarrow> int \<Rightarrow> byte list \<Rightarrow> error + (Options \<times> pyseq)" where
  "decode_loop self option_number [] = Inr (self, Str [])"
| "decode_loop self option_number (b # rawdata) =
     (if uint b = 0xFF then Inr (self, Bytes rawdata)
      else
        (case readExtendedFieldValue (drop_bit 4 (uint b AND 0xF0)) rawdata of
           Inl e \<Rightarrow> Inl e
         | Inr (delta, rawdata1) \<Rightarrow>
        (case readExtendedFieldValue (uint b AND 0x0F) rawdata1 of
           Inl e \<Rightarrow> Inl e
         | Inr (len, rawdata2) \<Rightarrow>
             decode_loop
               (addOption self
                  (create_option_decode (option_number + delta) (slice_to len rawdata2)))
               (option_number + delta)
               (slice_from len rawdata2))))"
  by pat_completeness auto
termination
proof (relation "measure (\<lambda>(self, option_number, rawdata). length rawdata)")
  show "wf (measure (\<lambda>(self, option_number, rawdata). length rawdata))" by simp
next
  fix self :: Options and option_number :: int and b :: byte and rawdata x2 delta rawdata1 y len rawdata2
  assume r1: "readExtendedFieldValue (drop_bit 4 (uint b AND 0xF0)) rawdata = Inr x2"
    and x2: "(delta, rawdata1) = x2"
    and r2: "readExtendedFieldValue (uint b AND 0x0F) rawdata1 = Inr y"
    and y: "(len, rawdata2) = y"
  have shorter: "length r \<le> length bs" if "readExtendedFieldValue v bs = Inr (x, r)" for v bs x r
    using that
    by (auto simp add: readExtendedFieldValue_def slice_from_def
        split: if_splits list.splits sum.splits)
  from r1 x2 have "length rawdata1 \<le> length rawdata" by (auto dest: shorter)
  moreover from r2 y have "length rawdata2 \<le> length rawdata1" by (auto dest: shorter)
  moreover have "length (slice_from len rawdata2) \<le> length rawdata2"
    by (simp add: slice_from_def)
  ultimately show "((addOption self (create_option_decode (option_number + delta) (slice_to len rawdata2)),
      option_number + delta, slice_from len rawdata2), self, option_number, b # rawdata)
      \<in> measure (\<lambda>(self, option_number, rawdata). length rawdata)"
    by simp
qed

definition decode :: "Options \<Rightarrow> byte list \<Rightarrow> error + (Options \<times> pyseq)" where
  "decode self rawdata = decode_loop self 0 rawdata"

subsection \<open>Single-value views\<close>

text \<open>
  The value handed to a setter: \<^verbatim>\<open>None\<close>, or the value of an option (for the opaque
  instance, its bytes).
\<close>

datatype pyvalue = PyNone | PyBytes "byte list"

text \<open>
  \<^verbatim>\<open>_setter(self, value, option_number=option_number)\<close> and
  \<^verbatim>\<open>_deleter(self, value, option_number=option_number)\<close>. The last parameter is bound
  by its default to the number of the view. The parameter \<^verbatim>\<open>value\<close> has no default:
  a call that does not pass it raises TypeError before the body runs, so it is an
  optional argument here, \<open>None\<close> when the call leaves it out.
\<close>

definition single_value_view_setter :: "int \<Rightarrow> Options \<Rightarrow> pyvalue option \<Rightarrow> error + Options" where
  "single_value_view_setter option_number self arg =
     (case arg of
        None \<Rightarrow> Inl TypeError
      | Some PyNone \<Rightarrow> Inr (deleteOption self option_number)
      | Some (PyBytes v) \<Rightarrow>
          Inr (addOption (deleteOption self option_number) (create_option_value option_number v)))"

definition single_value_view_deleter :: "int \<Rightarrow> Options \<Rightarrow> pyvalue option \<Rightarrow> error + Options" where
  "single_value_view_deleter option_number self arg =
     (case arg of
        None \<Rightarrow> Inl TypeError
      | Some _ \<Rightarrow> Inr (deleteOption self option_number))"

text \<open>
  \<^verbatim>\<open>property(_getter, _setter, _deleter, doc)\<close>: the assignment \<^verbatim>\<open>obj.name = v\<close>
  calls \<^verbatim>\<open>fset(obj, v)\<close>, the statement \<^verbatim>\<open>del obj.name\<close> calls \<^verbatim>\<open>fdel(obj)\<close>.
\<close>

definition property_set :: "('s \<Rightarrow> pyvalue option \<Rightarrow> error + 's) \<Rightarrow> 's \<Rightarrow> pyvalue \<Rightarrow> error + 's" where
  "property_set fset obj v = fset obj (Some v)"

definition property_delete :: "('s \<Rightarrow> pyvalue option \<Rightarrow> error + 's) \<Rightarrow> 's \<Rightarrow> error + 's" where
  "property_delete fdel obj = fdel obj None"

subsection \<open>Histories of a container\<close>

text \<open>
  The container is changed through \<^verbatim>\<open>addOption\<close> and \<^verbatim>\<open>deleteOption\<close> only:
  the loop of \<^verbatim>\<open>decode\<close> adds, the setters of the views delete and then add. A
  reachable state is therefore the empty container after a list of these two calls.
  Beside it stands what the spec expects to be stored after the same calls: the instances
  in the order they were added, without those of a number deleted since.
\<close>

datatype mutation = Add coap_option | Delete int

fun mutate :: "Options \<Rightarrow> mutation \<Rightarrow> Options" where
  "mutate self (Add opt) = addOption self opt"
| "mutate self (Delete n) = deleteOption self n"

fun remaining :: "coap_option list \<Rightarrow> mutation \<Rightarrow> coap_option list" where
  "remaining xs (Add opt) = xs @ [opt]"
| "remaining xs (Delete n) = filter (\<lambda>x. number x \<noteq> n) xs"

definition run :: "mutation list \<Rightarrow> Options" where
  "run ms = foldl mutate Options_init ms"

definition instances :: "mutation list \<Rightarrow> coap_option list" where
  "instances ms = foldl remaining [] ms"

text \<open>
  What the operations keep true of the dict: every key once, no empty list, and every
  instance under the key that is its own number.
\<close>

definition dict_inv :: "Options \<Rightarrow> bool" where
  "dict_inv d \<longleftrightarrow>
     distinct (map fst d)
     \<and> (\<forall>p \<in> set d. snd p \<noteq> [] \<and> (\<forall>x \<in> set (snd p). number x = fst p))"

subsection \<open>The container as objects in a store\<close>

text \<open>
  Whether \<^verbatim>\<open>encode\<close> changes the container is a question about objects: the dict
  \<^verbatim>\<open>_options\<close> and the lists in it are mutable, \<^verbatim>\<open>encode\<close> holds references to
  them while it appends to its own list \<^verbatim>\<open>data\<close>, and the definitions above, being
  functions of values, cannot express a write to any of them. For this question the
  methods are given a second time, on a store of objects: an address holds a list of
  instances (a value of the dict), a list of references to such lists (what
  \<^verbatim>\<open>sorted\<close> builds), a list of \<^verbatim>\<open>bytes\<close> (the list \<^verbatim>\<open>data\<close>), or the dict,
  whose entries are references. A container is the address of its dict. Every method
  returns its result, or the exception, together with the store it leaves. An access
  to an object of another kind than the statement expects ends the method with
  TypeError.
\<close>

datatype pyobj =
    OptList "coap_option list"
  | RefList "nat list"
  | BytesList "byte list list"
  | Dict "(int \<times> nat) list"

record store =
  heap :: "nat \<Rightarrow> pyobj option"
  fresh :: nat

text \<open>A list display, \<^verbatim>\<open>sorted\<close> and \<^verbatim>\<open>{}\<close> create an object at an unused address.\<close>

definition new_object :: "pyobj \<Rightarrow> store \<Rightarrow> nat \<times> store" where
  "new_object v s = (fresh s, s\<lparr>heap := (heap s)(fresh s \<mapsto> v), fresh := Suc (fresh s)\<rparr>)"

text \<open>\<^verbatim>\<open>list.append\<close> writes the object at the address it is given.\<close>

definition list_append_bytes :: "nat \<Rightarrow> byte list \<Rightarrow> store \<Rightarrow> (error + unit) \<times> store" where
  "list_append_bytes a x s =
     (case heap s a of
        Some (BytesList d) \<Rightarrow> (Inr (), s\<lparr>heap := (heap s)(a \<mapsto> BytesList (d @ [x]))\<rparr>)
      | _ \<Rightarrow> (Inl TypeError, s))"

definition list_append_option :: "nat \<Rightarrow> coap_option \<Rightarrow> store \<Rightarrow> (error + unit) \<times> store" where
  "list_append_option a x s =
     (case heap s a of
        Some (OptList xs) \<Rightarrow> (Inr (), s\<lparr>heap := (heap s)(a \<mapsto> OptList (xs @ [x]))\<rparr>)
      | _ \<Rightarrow> (Inl TypeError, s))"

text \<open>
  \<^verbatim>\<open>__init__\<close>, \<^verbatim>\<open>addOption\<close> and \<^verbatim>\<open>deleteOption\<close>. A popped list stays in the
  store; only the entry of the dict goes.
\<close>

definition h_Options_init :: "store \<Rightarrow> nat \<times> store" where
  "h_Options_init s = new_object (Dict []) s"

definition h_addOption :: "nat \<Rightarrow> coap_option \<Rightarrow> store \<Rightarrow> (error + unit) \<times> store" where
  "h_addOption self opt s =
     (case heap s self of
        Some (Dict d) \<Rightarrow>
          (case map_of d (number opt) of
             Some r \<Rightarrow> list_append_option r opt s
           | None \<Rightarrow>
               (let (r, s1) = new_object (OptList []) s;
                    s2 = s1\<lparr>heap := (heap s1)(self \<mapsto> Dict (d @ [(number opt, r)]))\<rparr>
                in list_append_option r opt s2))
      | _ \<Rightarrow> (Inl TypeError, s))"

fun ref_pop :: "int \<Rightarrow> (int \<times> nat) list \<Rightarrow> (int \<times> nat) list" where
  "ref_pop k [] = []"
| "ref_pop k ((k', r) # d) = (if k' = k then d else (k', r) # ref_pop k d)"

definition h_deleteOption :: "nat \<Rightarrow> int \<Rightarrow> store \<Rightarrow> (error + unit) \<times> store" where
  "h_deleteOption self n s =
     (case heap s self of
        Some (Dict d) \<Rightarrow>
          (if n \<in> fst ` set d
           then (Inr (), s\<lparr>heap := (heap s)(self \<mapsto> Dict (ref_pop n d))\<rparr>)
           else (Inr (), s))
      | _ \<Rightarrow> (Inl TypeError, s))"

text \<open>
  \<^verbatim>\<open>optionList\<close>: \<^verbatim>\<open>sorted\<close> reads the key \<^verbatim>\<open>x[0].number\<close> of every value of the
  dict, in the order of the dict, and builds a new list of the same list objects in the
  order of their keys; the chained iterator that is returned is the address of that list.
\<close>

fun first_numbers :: "store \<Rightarrow> nat list \<Rightarrow> error + int list" where
  "first_numbers s [] = Inr []"
| "first_numbers s (r # rs) =
     (case heap s r of
        Some (OptList (x # _)) \<Rightarrow>
          (case first_numbers s rs of Inl e \<Rightarrow> Inl e | Inr ks \<Rightarrow> Inr (number x # ks))
      | Some (OptList []) \<Rightarrow> Inl IndexError
      | _ \<Rightarrow> Inl TypeError)"

definition h_optionList :: "nat \<Rightarrow> store \<Rightarrow> (error + nat) \<times> store" where
  "h_optionList self s =
     (case heap s self of
        Some (Dict d) \<Rightarrow>
          (case first_numbers s (map snd d) of
             Inl e \<Rightarrow> (Inl e, s)
           | Inr ks \<Rightarrow>
               (let (sorted_list, s1) =
                      new_object (RefList (map snd (sort_key fst (zip ks (map snd d))))) s
                in (Inr sorted_list, s1)))
      | _ \<Rightarrow> (Inl TypeError, s))"

text \<open>
  The body of the loop of \<^verbatim>\<open>encode\<close> for one instance: the two extended fields and
  the header byte are computed, then the four \<^verbatim>\<open>data.append\<close> calls write the list
  \<^verbatim>\<open>data\<close>. It returns the new \<^verbatim>\<open>current_opt_num\<close>.
\<close>

definition h_encode_body :: "nat \<Rightarrow> int \<Rightarrow> coap_option \<Rightarrow> store \<Rightarrow> (error + int) \<times> store" where
  "h_encode_body data current_opt_num opt s =
     (case writeExtendedFieldValue (number opt - current_opt_num) of
        Inl e \<Rightarrow> (Inl e, s)
      | Inr (delta, extended_delta) \<Rightarrow>
     (case writeExtendedFieldValue (opt_length opt) of
        Inl e \<Rightarrow> (Inl e, s)
      | Inr (len, extended_length) \<Rightarrow>
     (case py_bytes [push_bit 4 (delta AND 0x0F) + (len AND 0x0F)] of
        Inl e \<Rightarrow> (Inl e, s)
      | Inr head \<Rightarrow>
     (case list_append_bytes data head s of
        (Inl e, s1) \<Rightarrow> (Inl e, s1)
      | (Inr _, s1) \<Rightarrow>
     (case list_append_bytes data extended_delta s1 of
        (Inl e, s2) \<Rightarrow> (Inl e, s2)
      | (Inr _, s2) \<Rightarrow>
     (case list_append_bytes data extended_length s2 of
        (Inl e, s3) \<Rightarrow> (Inl e, s3)
      | (Inr _, s3) \<Rightarrow>
     (case list_append_bytes data (opt_encode opt) s3 of
        (Inl e, s4) \<Rightarrow> (Inl e, s4)
      | (Inr _, s4) \<Rightarrow> (Inr (number opt), s4))))))))"

text \<open>
  The loop over the chained iterator. A list iterator holds an index and reads its
  list again at every step, so the loop reads the sorted list at \<open>j\<close> and the list it
  refers to at \<open>i\<close> from the store as the body has left it. The two measures count what
  is left of the two lists.
\<close>

definition outer_left :: "store \<Rightarrow> nat \<Rightarrow> nat \<Rightarrow> nat" where
  "outer_left s it j = (case heap s it of Some (RefList refs) \<Rightarrow> length refs - j | _ \<Rightarrow> 0)"

definition inner_left :: "store \<Rightarrow> nat \<Rightarrow> nat \<Rightarrow> nat \<Rightarrow> nat" where
  "inner_left s it j i =
     (case heap s it of
        Some (RefList refs) \<Rightarrow>
          (if j < length refs
           then (case heap s (refs ! j) of Some (OptList xs) \<Rightarrow> Suc (length xs) - i | _ \<Rightarrow> 0)
           else 0)
      | _ \<Rightarrow> 0)"

function h_encode_loop :: "nat \<Rightarrow> nat \<Rightarrow> nat \<Rightarrow> nat \<Rightarrow> int \<Rightarrow> store \<Rightarrow> (error + unit) \<times> store" where
  "h_encode_loop data it j i current_opt_num s =
     (case heap s it of
        Some (RefList refs) \<Rightarrow>
          (if j < length refs then
             (case heap s (refs ! j) of
                Some (OptList xs) \<Rightarrow>
                  (if i < length xs then
                     (case h_encode_body data current_opt_num (xs ! i) s of
                        (Inl e, s') \<Rightarrow> (Inl e, s')
                      | (Inr cur, s') \<Rightarrow> h_encode_loop data it j (Suc i) cur s')
                   else h_encode_loop data it (Suc j) 0 current_opt_num s)
              | _ \<Rightarrow> (Inl TypeError, s))
           else (Inr (), s))
      | _ \<Rightarrow> (Inl TypeError, s))"
  by pat_completeness auto
termination
proof (relation "measures [\<lambda>(data, it, j, i, cur, s). outer_left s it j,
                           \<lambda>(data, it, j, i, cur, s). inner_left s it j i]")
  show "wf (measures [\<lambda>(data, it, j, i, cur, s). outer_left s it j,
                      \<lambda>(data, it, j, i, cur, s). inner_left s it j i])"
    by simp
next
  fix data it j i :: nat and current_opt_num :: int and s :: store
    and x2 refs x2a xs x y x1 cur
  assume it: "heap s it = Some x2" "x2 = RefList refs" "j < length refs"
    and r: "heap s (refs ! j) = Some x2a" "x2a = OptList xs" "i < length xs"
    and b: "(x, y) = h_encode_body data current_opt_num (xs ! i) s" "x = Inr cur"
  have app: "heap t' b = heap t b"
    if "list_append_bytes a v t = (res, t')" "\<forall>d. heap t b \<noteq> Some (BytesList d)"
    for a v t res t' b
    using that
    by (auto simp add: list_append_bytes_def split: option.splits pyobj.splits)
  have keep: "heap y b = heap s b" if "\<forall>d. heap s b \<noteq> Some (BytesList d)" for b
    using b(1) [symmetric] that
    by (auto simp add: h_encode_body_def app split: sum.splits prod.splits)
  from it r have "heap y it = Some (RefList refs)" "heap y (refs ! j) = Some (OptList xs)"
    by (simp_all add: keep)
  with it r show "((data, it, j, Suc i, cur, y), data, it, j, i, current_opt_num, s)
      \<in> measures [\<lambda>(data, it, j, i, cur, s). outer_left s it j,
                   \<lambda>(data, it, j, i, cur, s). inner_left s it j i]"
    by (simp add: outer_left_def inner_left_def)
next
  fix data it j i :: nat and current_opt_num :: int and s :: store
    and x2 refs x2a xs
  assume "heap s it = Some x2" "x2 = RefList refs" "j < length refs"
    and "heap s (refs ! j) = Some x2a" "x2a = OptList xs" "\<not> i < length xs"
  then show "((data, it, Suc j, 0, current_opt_num, s), data, it, j, i, current_opt_num, s)
      \<in> measures [\<lambda>(data, it, j, i, cur, s). outer_left s it j,
                   \<lambda>(data, it, j, i, cur, s). inner_left s it j i]"
    by (auto simp add: outer_left_def)
qed

declare h_encode_loop.simps [simp del]

text \<open>
  \<^verbatim>\<open>encode\<close>: the list \<^verbatim>\<open>data\<close> is created, \<^verbatim>\<open>optionList\<close> is called, the loop
  runs, and \<^verbatim>\<open>b''.join(data)\<close> reads the list \<^verbatim>\<open>data\<close>.
\<close>

definition h_encode :: "nat \<Rightarrow> store \<Rightarrow> (error + byte list) \<times> store" where
  "h_encode self s =
     (let (data, s1) = new_object (BytesList []) s in
      case h_optionList self s1 of
        (Inl e, s2) \<Rightarrow> (Inl e, s2)
      | (Inr option_list, s2) \<Rightarrow>
          (case h_encode_loop data option_list 0 0 0 s2 of
             (Inl e, s3) \<Rightarrow> (Inl e, s3)
           | (Inr _, s3) \<Rightarrow>
               (case heap s3 data of
                  Some (BytesList d) \<Rightarrow> (Inr (concat d), s3)
                | _ \<Rightarrow> (Inl TypeError, s3))))"

text \<open>
  The dict of values that a container in the store stands for, and the stores in which
  a container is in order: its dict is there, and every entry refers to a list of
  instances of its own, created before.
\<close>

definition list_at :: "store \<Rightarrow> nat \<Rightarrow> coap_option list" where
  "list_at s r = (case heap s r of Some (OptList xs) \<Rightarrow> xs | _ \<Rightarrow> [])"

definition options_of :: "store \<Rightarrow> nat \<Rightarrow> Options" where
  "options_of s self =
     (case heap s self of
        Some (Dict d) \<Rightarrow> map (\<lambda>(k, r). (k, list_at s r)) d
      | _ \<Rightarrow> [])"

definition is_opt_list :: "pyobj option \<Rightarrow> bool" where
  "is_opt_list v = (case v of Some (OptList _) \<Rightarrow> True | _ \<Rightarrow> False)"

definition wf_store :: "store \<Rightarrow> nat \<Rightarrow> bool" where
  "wf_store s self =
     (case heap s self of
        Some (Dict d) \<Rightarrow>
          self < fresh s
          \<and> list_all (\<lambda>r. r < fresh s \<and> is_opt_list (heap s r)) (map snd d)
          \<and> distinct (map snd d)
      | _ \<Rightarrow> False)"

text \<open>The store after \<^verbatim>\<open>Options()\<close> and a history of calls.\<close>

fun h_mutate :: "nat \<Rightarrow> store \<Rightarrow> mutation \<Rightarrow> store" where
  "h_mutate self s (Add opt) = snd (h_addOption self opt s)"
| "h_mutate self s (Delete n) = snd (h_deleteOption self n s)"

definition h_run :: "mutation list \<Rightarrow> nat \<times> store" where
  "h_run ms =
     (let (self, s) = h_Options_init \<lparr>heap = Map.empty, fresh = 0\<rparr>
      in (self, foldl (h_mutate self) s ms))"

section \<open>The extended field codec\<close>

lemma slice_to_nonneg [simp]: "0 \<le> k \<Longrightarrow> slice_to k xs = take (nat k) xs"
  by (simp add: slice_to_def)

lemma slice_from_nonneg [simp]: "0 \<le> k \<Longrightarrow> slice_from k xs = drop (nat k) xs"
  by (simp add: slice_from_def)

lemma uint_byte_of_int: "0 \<le> v \<Longrightarrow> v < 256 \<Longrightarrow> uint (word_of_int v :: byte) = v"
  by (simp add: uint_word_of_int)

lemma write_tier_A:
  "0 \<le> v \<Longrightarrow> v < 13 \<Longrightarrow> writeExtendedFieldValue v = Inr (v, [])"
  by (simp add: writeExtendedFieldValue_def)

lemma write_tier_B:
  "13 \<le> v \<Longrightarrow> v < 269 \<Longrightarrow> writeExtendedFieldValue v = Inr (13, [word_of_int (v - 13)])"
  by (simp add: writeExtendedFieldValue_def struct_pack_B_def)

lemma write_tier_C:
  "269 \<le> v \<Longrightarrow> v < 65804 \<Longrightarrow>
   writeExtendedFieldValue v =
     Inr (14, [word_of_int ((v - 269) div 256), word_of_int ((v - 269) mod 256)])"
  by (simp add: writeExtendedFieldValue_def struct_pack_H_def)

lemma write_out_of_range:
  "v < 0 \<or> 65804 \<le> v \<Longrightarrow> writeExtendedFieldValue v = Inl ValueError"
  by (auto simp add: writeExtendedFieldValue_def)

lemma read_tier_A:
  "0 \<le> v \<Longrightarrow> v < 13 \<Longrightarrow> readExtendedFieldValue v bs = Inr (v, bs)"
  by (simp add: readExtendedFieldValue_def)

lemma read_tier_B:
  "readExtendedFieldValue 13 (b # bs) = Inr (uint b + 13, bs)"
  by (simp add: readExtendedFieldValue_def)

lemma read_tier_C:
  "readExtendedFieldValue 14 (hi # lo # bs) = Inr (uint hi * 256 + uint lo + 269, bs)"
  by (simp add: readExtendedFieldValue_def struct_unpack_H_def)

lemma read_reserved:
  "v < 0 \<or> 15 \<le> v \<Longrightarrow> readExtendedFieldValue v bs = Inl ValueError"
  by (auto simp add: readExtendedFieldValue_def)

lemma big_endian_16:
  assumes "0 \<le> x" "x < 65536"
  shows "uint (word_of_int (x div 256) :: byte) * 256 + uint (word_of_int (x mod 256) :: byte) = x"
proof -
  have "0 \<le> x div 256" "x div 256 < 256" using assms by auto
  then have "uint (word_of_int (x div 256) :: byte) = x div 256"
    by (rule uint_byte_of_int)
  moreover have "uint (word_of_int (x mod 256) :: byte) = x mod 256"
    by (rule uint_byte_of_int) simp_all
  ultimately show ?thesis by simp
qed

lemma read_write:
  assumes "0 \<le> v" "v < 65804"
  shows "\<exists>nibble ext. writeExtendedFieldValue v = Inr (nibble, ext)
           \<and> readExtendedFieldValue nibble (ext @ rest) = Inr (v, rest)"
proof -
  consider "v < 13" | "13 \<le> v" "v < 269" | "269 \<le> v" by linarith
  then show ?thesis
  proof cases
    case 1
    with assms show ?thesis by (simp add: write_tier_A read_tier_A)
  next
    case 2
    then have "uint (word_of_int (v - 13) :: byte) = v - 13"
      by (intro uint_byte_of_int) simp_all
    with 2 show ?thesis by (simp add: write_tier_B read_tier_B)
  next
    case 3
    with assms have "0 \<le> v - 269" "v - 269 < 65536" by simp_all
    then have "uint (word_of_int ((v - 269) div 256) :: byte) * 256
                 + uint (word_of_int ((v - 269) mod 256) :: byte) = v - 269"
      by (rule big_endian_16)
    with 3 assms show ?thesis by (simp add: write_tier_C read_tier_C)
  qed
qed

lemma uint_byte_le: "uint (b :: byte) \<le> 255"
  using uint_bounded [of b] by simp

lemma read_value_range:
  assumes "readExtendedFieldValue nibble bs = Inr (v, rest)"
  shows "0 \<le> v \<and> v \<le> 65804"
proof -
  consider "0 \<le> nibble \<and> nibble < 13" | "nibble = 13" | "nibble = 14" | "nibble < 0 \<or> 15 \<le> nibble"
    by linarith
  then show ?thesis
  proof cases
    case 1
    with assms show ?thesis by (simp add: readExtendedFieldValue_def)
  next
    case 2
    show ?thesis
    proof (cases bs)
      case Nil
      with 2 assms show ?thesis by (simp add: readExtendedFieldValue_def)
    next
      case (Cons b bs')
      with 2 assms have "v = uint b + 13" by (simp add: read_tier_B)
      with uint_byte_le [of b] show ?thesis by simp
    qed
  next
    case 3
    have "\<exists>hi lo bs'. bs = hi # lo # bs'"
    proof (cases bs)
      case Nil
      with 3 assms show ?thesis
        by (simp add: readExtendedFieldValue_def struct_unpack_H_def)
    next
      case (Cons hi t)
      with 3 assms show ?thesis
        by (cases t) (simp_all add: readExtendedFieldValue_def struct_unpack_H_def)
    qed
    then obtain hi lo bs' where "bs = hi # lo # bs'" by blast
    with 3 assms have "v = uint hi * 256 + uint lo + 269" by (simp add: read_tier_C)
    with uint_byte_le [of hi] uint_byte_le [of lo] show ?thesis by simp
  next
    case 4
    with assms show ?thesis by (simp add: read_reserved)
  qed
qed

lemma read_values: "{v. \<exists>nibble bs rest. readExtendedFieldValue nibble bs = Inr (v, rest)} = {0..65804}"
proof (intro set_eqI iffI)
  fix v assume "v \<in> {v. \<exists>nibble bs rest. readExtendedFieldValue nibble bs = Inr (v, rest)}"
  then show "v \<in> {0..65804}" using read_value_range by auto
next
  fix v :: int assume "v \<in> {0..65804}"
  then consider "0 \<le> v" "v < 65804" | "v = 65804" by fastforce
  then show "v \<in> {v. \<exists>nibble bs rest. readExtendedFieldValue nibble bs = Inr (v, rest)}"
  proof cases
    case 1
    from read_write [OF this, of "[]"] show ?thesis by blast
  next
    case 2
    have "readExtendedFieldValue 14 [0xFF, 0xFF] = Inr (65804, [])" by (simp add: read_tier_C)
    with 2 show ?thesis by blast
  qed
qed

lemma write_values: "{v. \<exists>r. writeExtendedFieldValue v = Inr r} = {0..65803}"
proof (intro set_eqI iffI)
  fix v assume a: "v \<in> {v. \<exists>r. writeExtendedFieldValue v = Inr r}"
  have "\<not> (v < 0 \<or> 65804 \<le> v)"
  proof
    assume "v < 0 \<or> 65804 \<le> v"
    then have "writeExtendedFieldValue v = Inl ValueError" by (rule write_out_of_range)
    with a show False by simp
  qed
  then show "v \<in> {0..65803}" by simp
next
  fix v :: int assume "v \<in> {0..65803}"
  then have "0 \<le> v" "v < 65804" by simp_all
  from read_write [OF this, of "[]"]
  show "v \<in> {v. \<exists>r. writeExtendedFieldValue v = Inr r}" by blast
qed

subsection \<open>Header byte\<close>

lemma and_15: "(0::int) \<le> d \<Longrightarrow> d < 16 \<Longrightarrow> d AND 0x0F = d"
  using take_bit_int_eq_self [of d 4] by (simp add: take_bit_eq_mask mask_eq_exp_minus_1)

lemma header_low_nibble:
  assumes "x = 16 * d + l" "(0::int) \<le> d" "d < 16" "0 \<le> l" "l < 16"
  shows "x AND 0x0F = l"
proof -
  have "x AND 0x0F = take_bit 4 x"
    by (simp add: take_bit_eq_mask mask_eq_exp_minus_1)
  also have "\<dots> = x mod 16" by (simp add: take_bit_eq_mod)
  also have "\<dots> = l" using assms by simp
  finally show ?thesis .
qed

lemma header_high_nibble:
  assumes "x = 16 * d + l" "(0::int) \<le> d" "d < 16" "0 \<le> l" "l < 16"
  shows "drop_bit 4 (x AND 0xF0) = d"
proof -
  have "drop_bit 4 (x AND 0xF0) = drop_bit 4 x AND drop_bit 4 (0xF0 :: int)"
    by (rule drop_bit_and)
  also have "drop_bit 4 (0xF0 :: int) = 0x0F" by (simp add: drop_bit_eq_div)
  also have "drop_bit 4 x = d" using assms by (simp add: drop_bit_eq_div)
  finally show ?thesis using assms by (simp only: and_15)
qed

lemma header_byte:
  assumes "(0::int) \<le> d" "d \<le> 14" "0 \<le> l" "l \<le> 14"
  shows "\<exists>b. py_bytes [push_bit 4 (d AND 0x0F) + (l AND 0x0F)] = Inr [b]
           \<and> uint b \<noteq> 0xFF
           \<and> drop_bit 4 (uint b AND 0xF0) = d
           \<and> uint b AND 0x0F = l"
proof -
  define x where "x = 16 * d + l"
  define b :: byte where "b = word_of_int x"
  from assms have dl: "d AND 0x0F = d" "l AND 0x0F = l" by (simp_all add: and_15)
  have px: "push_bit 4 (d AND 0x0F) + (l AND 0x0F) = x"
    unfolding dl x_def by (simp add: push_bit_eq_mult)
  from assms have r: "0 \<le> x" "x < 255" by (simp_all add: x_def)
  then have u: "uint b = x" unfolding b_def by (intro uint_byte_of_int) simp_all
  from r have "py_bytes [x] = Inr [b]" by (simp add: py_bytes_def b_def)
  moreover from u r have "uint b \<noteq> 0xFF" by simp
  moreover from assms have "drop_bit 4 (uint b AND 0xF0) = d"
    unfolding u by (intro header_high_nibble [OF x_def]) simp_all
  moreover from assms have "uint b AND 0x0F = l"
    unfolding u by (intro header_low_nibble [OF x_def]) simp_all
  ultimately show ?thesis unfolding px by blast
qed

lemma write_Inr:
  assumes "writeExtendedFieldValue v = Inr (nibble, ext)"
  shows "0 \<le> v \<and> 0 \<le> nibble \<and> nibble \<le> 14
         \<and> readExtendedFieldValue nibble (ext @ rest) = Inr (v, rest)"
proof -
  have range: "0 \<le> v \<and> v < 65804"
  proof (rule ccontr)
    assume "\<not> (0 \<le> v \<and> v < 65804)"
    then have "writeExtendedFieldValue v = Inl ValueError"
      by (intro write_out_of_range) linarith
    with assms show False by simp
  qed
  then obtain n e where w: "writeExtendedFieldValue v = Inr (n, e)"
    and r: "readExtendedFieldValue n (e @ rest) = Inr (v, rest)"
    using read_write [of v rest] by blast
  from w assms have ne: "n = nibble" "e = ext" by simp_all
  have "0 \<le> nibble \<and> nibble \<le> 14"
    using assms range
    by (auto simp add: writeExtendedFieldValue_def struct_pack_B_def struct_pack_H_def
        split: if_splits)
  with range r ne show ?thesis by simp
qed

section \<open>The container\<close>

lemma keys_setdefault_append:
  "map fst (setdefault_append k x d) =
     (if k \<in> set (map fst d) then map fst d else map fst d @ [k])"
  by (induction d) (force+)

lemma set_setdefault_append:
  "p \<in> set (setdefault_append k x d) \<Longrightarrow>
     p \<in> set d \<or> (\<exists>v. p = (k, v @ [x]) \<and> (v = [] \<or> (k, v) \<in> set d))"
  by (induction d) (auto split: if_splits)

lemma dict_inv_setdefault_append:
  assumes "dict_inv d"
  shows "dict_inv (setdefault_append (number x) x d)"
proof -
  from assms have "distinct (map fst (setdefault_append (number x) x d))"
    by (simp add: dict_inv_def keys_setdefault_append del: set_map)
  moreover have "snd p \<noteq> [] \<and> (\<forall>y \<in> set (snd p). number y = fst p)"
    if "p \<in> set (setdefault_append (number x) x d)" for p
    using set_setdefault_append [OF that] assms by (fastforce simp add: dict_inv_def)
  ultimately show ?thesis by (simp add: dict_inv_def)
qed

lemma set_dict_pop: "p \<in> set (dict_pop k d) \<Longrightarrow> p \<in> set d"
  by (induction d) (auto split: if_splits)

lemma keys_dict_pop: "map fst (dict_pop k d) = remove1 k (map fst d)"
  by (induction d) auto

lemma dict_inv_dict_pop: "dict_inv d \<Longrightarrow> dict_inv (dict_pop k d)"
  by (auto simp add: dict_inv_def keys_dict_pop dest!: set_dict_pop)

lemma dict_inv_init: "dict_inv Options_init"
  by (simp add: dict_inv_def Options_init_def)

lemma dict_inv_addOption: "dict_inv self \<Longrightarrow> dict_inv (addOption self opt)"
  by (simp add: addOption_def dict_inv_setdefault_append)

lemma dict_inv_deleteOption: "dict_inv self \<Longrightarrow> dict_inv (deleteOption self n)"
  by (simp add: deleteOption_def dict_inv_dict_pop)

lemma map_of_setdefault_append:
  "map_of (setdefault_append k x d) k' =
     (if k' = k then Some ((case map_of d k of None \<Rightarrow> [] | Some v \<Rightarrow> v) @ [x]) else map_of d k')"
  by (induction d) auto

lemma getOption_addOption:
  "getOption (addOption self opt) n =
     (if n = number opt then getOption self n @ [opt] else getOption self n)"
  by (simp add: getOption_def addOption_def map_of_setdefault_append)

lemma map_of_dict_pop:
  "distinct (map fst d) \<Longrightarrow> map_of (dict_pop k d) k' = (if k' = k then None else map_of d k')"
proof (induction d)
  case Nil
  then show ?case by simp
next
  case (Cons p d)
  obtain a b where p: "p = (a, b)" by (cases p)
  show ?case
  proof (cases "a = k")
    case True
    with Cons.prems p have "k \<notin> fst ` set d" by simp
    then have "map_of d k = None" by (simp add: map_of_eq_None_iff)
    with True p show ?thesis by simp
  next
    case False
    with Cons p show ?thesis by (auto split: if_splits)
  qed
qed

lemma getOption_deleteOption:
  assumes "dict_inv self"
  shows "getOption (deleteOption self n) k = (if k = n then [] else getOption self k)"
proof (cases "n \<in> fst ` set self")
  case True
  with assms show ?thesis
    by (simp add: getOption_def deleteOption_def dict_inv_def map_of_dict_pop)
next
  case False
  then have "map_of self n = None" by (simp add: map_of_eq_None_iff)
  with False show ?thesis by (simp add: getOption_def deleteOption_def)
qed

lemma dict_inv_mutate: "dict_inv self \<Longrightarrow> dict_inv (mutate self m)"
  by (cases m) (simp_all add: dict_inv_addOption dict_inv_deleteOption)

lemma dict_inv_run: "dict_inv (run ms)"
  unfolding run_def by (induction ms rule: rev_induct) (simp_all add: dict_inv_init dict_inv_mutate)

lemma getOption_init: "getOption Options_init n = []"
  by (simp add: getOption_def Options_init_def)

lemma getOption_run: "getOption (run ms) n = filter (\<lambda>x. number x = n) (instances ms)"
proof (induction ms arbitrary: n rule: rev_induct)
  case Nil
  show ?case by (simp add: run_def instances_def getOption_init)
next
  case (snoc m ms)
  have inv: "dict_inv (run ms)" by (rule dict_inv_run)
  have step: "run (ms @ [m]) = mutate (run ms) m" "instances (ms @ [m]) = remaining (instances ms) m"
    by (simp_all add: run_def instances_def)
  show ?case
  proof (cases m)
    case (Add opt)
    with snoc step show ?thesis by (simp add: getOption_addOption)
  next
    case (Delete k)
    have ff: "filter (\<lambda>x. number x = n) (filter (\<lambda>x. number x \<noteq> k) xs) =
            (if n = k then [] else filter (\<lambda>x. number x = n) xs)" for xs
      by (induction xs) auto
    have "getOption (run (ms @ [m])) n = getOption (deleteOption (run ms) k) n"
      using step Delete by simp
    also have "\<dots> = (if n = k then [] else getOption (run ms) n)"
      using inv by (rule getOption_deleteOption)
    also have "\<dots> = (if n = k then [] else filter (\<lambda>x. number x = n) (instances ms))"
      by (simp only: snoc)
    also have "\<dots> = filter (\<lambda>x. number x = n) (filter (\<lambda>x. number x \<noteq> k) (instances ms))"
      by (simp only: ff)
    also have "\<dots> = filter (\<lambda>x. number x = n) (instances (ms @ [m]))"
      using step Delete by simp
    finally show ?thesis .
  qed
qed

subsection \<open>The sorted iteration\<close>

lemma block_key:
  assumes "dict_inv self" "p \<in> set self"
  shows "number (hd (snd p)) = fst p"
proof -
  from assms have "snd p \<noteq> []" "\<forall>x \<in> set (snd p). number x = fst p"
    by (simp_all add: dict_inv_def)
  then show ?thesis by (simp add: hd_in_set)
qed

lemma optionList_Inr:
  assumes "dict_inv self"
  shows "optionList self = Inr (concat (sort_key (\<lambda>x. number (hd x)) (map snd self)))"
proof -
  from assms have "\<not> list_ex (\<lambda>x. x = []) (map snd self)"
    by (auto simp add: dict_inv_def list_ex_iff)
  then show ?thesis by (simp add: optionList_def)
qed

lemma sorted_concat_blocks:
  assumes "\<forall>v \<in> set vs. \<forall>x \<in> set v. number x = f v" "sorted (map f vs)"
  shows "sorted (map number (concat vs))"
  using assms
proof (induction vs)
  case Nil
  then show ?case by simp
next
  case (Cons v vs)
  from Cons.prems have same: "\<forall>x \<in> set v. number x = f v" by simp
  then have "map number v = replicate (length v) (f v)"
    by (simp add: map_replicate_const [symmetric] cong: map_cong)
  then have "sorted (map number v)" by (simp add: sorted_replicate)
  moreover from Cons have "sorted (map number (concat vs))" by simp
  moreover have "number x \<le> number y" if "x \<in> set v" "y \<in> set (concat vs)" for x y
  proof -
    from that(2) obtain w where w: "w \<in> set vs" "y \<in> set w" by auto
    with Cons.prems have "f v \<le> f w" "number y = f w" by auto
    with same that(1) show ?thesis by simp
  qed
  ultimately show ?case by (auto simp add: sorted_append)
qed

lemma filter_concat_blocks_miss:
  assumes "\<forall>v \<in> set vs. \<forall>x \<in> set v. number x = f v" "\<forall>v \<in> set vs. f v \<noteq> n"
  shows "filter (\<lambda>x. number x = n) (concat vs) = []"
  using assms by (auto simp add: filter_empty_conv)

lemma filter_concat_blocks_hit:
  assumes "\<forall>v \<in> set vs. \<forall>x \<in> set v. number x = f v" "distinct (map f vs)" "v \<in> set vs"
  shows "filter (\<lambda>x. number x = f v) (concat vs) = v"
  using assms
proof (induction vs)
  case Nil
  then show ?case by simp
next
  case (Cons w vs)
  from Cons.prems have all: "\<forall>u \<in> set vs. \<forall>x \<in> set u. number x = f u" by simp
  show ?case
  proof (cases "v = w")
    case True
    with Cons.prems have "f v \<notin> f ` set vs" by simp
    then have "\<forall>u \<in> set vs. f u \<noteq> f v" by (metis imageI)
    with all have "filter (\<lambda>x. number x = f v) (concat vs) = []"
      by (rule filter_concat_blocks_miss)
    moreover from True Cons.prems have "filter (\<lambda>x. number x = f v) w = w" by simp
    ultimately show ?thesis using True by simp
  next
    case False
    with Cons.prems have v: "v \<in> set vs" "f w \<noteq> f v" by auto
    with Cons.prems have "filter (\<lambda>x. number x = f v) w = []"
      by (auto simp add: filter_empty_conv)
    moreover from Cons.IH [OF all] Cons.prems v
    have "filter (\<lambda>x. number x = f v) (concat vs) = v" by simp
    ultimately show ?thesis by simp
  qed
qed

lemma optionList_props:
  assumes "dict_inv self"
  shows "\<exists>xs. optionList self = Inr xs \<and> sorted (map number xs)
           \<and> (\<forall>n. filter (\<lambda>x. number x = n) xs = getOption self n)"
proof -
  define f where "f = (\<lambda>v :: coap_option list. number (hd v))"
  define vs where "vs = sort_key f (map snd self)"
  have ol: "optionList self = Inr (concat vs)"
    unfolding vs_def f_def using assms by (rule optionList_Inr)
  have set_vs: "set vs = snd ` set self" by (simp add: vs_def)
  have key: "f (snd p) = fst p" if "p \<in> set self" for p
    unfolding f_def using assms that by (rule block_key)
  have same: "\<forall>v \<in> set vs. \<forall>x \<in> set v. number x = f v"
    using assms key by (auto simp add: set_vs dict_inv_def)
  have e1: "map f (map snd self) = map fst self" using key by simp
  have m: "mset vs = mset (map snd self)" by (simp add: vs_def)
  have "mset (map f vs) = mset (map fst self)" by (metis m e1 mset_map)
  then have "distinct (map f vs) = distinct (map fst self)"
    by (rule mset_eq_imp_distinct_iff)
  with assms have dist: "distinct (map f vs)" by (simp add: dict_inv_def)
  have srt: "sorted (map f vs)" by (simp add: vs_def)
  have "sorted (map number (concat vs))" using same srt by (rule sorted_concat_blocks)
  moreover have "filter (\<lambda>x. number x = n) (concat vs) = getOption self n" for n
  proof (cases "map_of self n")
    case None
    then have "n \<notin> fst ` set self" by (simp add: map_of_eq_None_iff)
    with key have "\<forall>v \<in> set vs. f v \<noteq> n" by (auto simp add: set_vs)
    with same have "filter (\<lambda>x. number x = n) (concat vs) = []"
      by (rule filter_concat_blocks_miss)
    with None show ?thesis by (simp add: getOption_def)
  next
    case (Some v)
    then have mem: "(n, v) \<in> set self" by (rule map_of_SomeD)
    then have "v \<in> set vs" by (force simp add: set_vs)
    with same dist have "filter (\<lambda>x. number x = f v) (concat vs) = v"
      by (rule filter_concat_blocks_hit)
    moreover from key [OF mem] have "f v = n" by simp
    ultimately show ?thesis using Some by (simp add: getOption_def)
  qed
  ultimately show ?thesis using ol by blast
qed

lemma stable_sort_unique:
  assumes "sorted (map f ys)" "\<And>n. filter (\<lambda>x. f x = n) ys = filter (\<lambda>x. f x = n) xs"
  shows "ys = sort_key f xs"
proof -
  have "count (mset ys) a = count (mset xs) a" for a
  proof -
    have c: "count (mset zs) a = count (mset (filter (\<lambda>x. f x = f a) zs)) a" for zs
      by (induction zs) simp_all
    have "count (mset ys) a = count (mset (filter (\<lambda>x. f x = f a) ys)) a" by (rule c)
    also have "\<dots> = count (mset (filter (\<lambda>x. f x = f a) xs)) a"
      by (simp only: assms(2))
    also have "\<dots> = count (mset xs) a" by (rule c [symmetric])
    finally show ?thesis .
  qed
  then have "mset ys = mset xs" by (rule multiset_eqI)
  moreover have "filter (\<lambda>x. f k = f x) ys = filter (\<lambda>x. f k = f x) xs" for k
    using assms(2) [of "f k"] by (simp add: eq_commute [of "f k"])
  ultimately have "sort_key f xs = ys" using assms(1)
    by (intro properties_for_sort_key) simp_all
  then show ?thesis by simp
qed

lemma optionList_run: "optionList (run ms) = Inr (sort_key number (instances ms))"
proof -
  from optionList_props [OF dict_inv_run, of ms] obtain xs where
    xs: "optionList (run ms) = Inr xs" "sorted (map number xs)"
      "\<And>n. filter (\<lambda>x. number x = n) xs = getOption (run ms) n"
    by blast
  from xs(2) have "xs = sort_key number (instances ms)"
    by (rule stable_sort_unique) (simp add: xs(3) getOption_run)
  with xs(1) show ?thesis by simp
qed

lemma run_adds: "run (map Add os) = foldl addOption Options_init os"
  unfolding run_def by (induction os rule: rev_induct) simp_all

lemma instances_adds: "instances (map Add os) = os"
  unfolding instances_def by (induction os rule: rev_induct) simp_all

lemma optionList_adds:
  "optionList (foldl addOption Options_init os) = Inr (sort_key number os)"
  using optionList_run [of "map Add os"] by (simp add: run_adds instances_adds)

section \<open>Encoding and decoding the header\<close>




lemma encode_loop_succeeds:
  assumes "sorted (map number os)"
    and "\<forall>x \<in> set os. cur \<le> number x \<and> number x \<le> cur + 65803 \<and> length (raw x) \<le> 65803"
  shows "\<exists>d. encode_loop data cur os = Inr d"
  using assms
proof (induction os arbitrary: data cur)
  case Nil
  then show ?case by simp
next
  case (Cons opt os)
  from Cons.prems have "0 \<le> number opt - cur" "number opt - cur < 65804" by simp_all
  from read_write [OF this, of "[]"] obtain dn dext where
    w1: "writeExtendedFieldValue (number opt - cur) = Inr (dn, dext)" by blast
  from Cons.prems have "0 \<le> opt_length opt" "opt_length opt < 65804"
    by (simp_all add: opt_length_def)
  from read_write [OF this, of "[]"] obtain ln lext where
    w2: "writeExtendedFieldValue (opt_length opt) = Inr (ln, lext)" by blast
  from write_Inr [OF w1] have dn: "0 \<le> dn" "dn \<le> 14" by simp_all
  from write_Inr [OF w2] have ln: "0 \<le> ln" "ln \<le> 14" by simp_all
  from header_byte [OF dn ln] obtain b where
    b: "py_bytes [push_bit 4 (dn AND 0x0F) + (ln AND 0x0F)] = Inr [b]" by blast
  from Cons.prems have "sorted (map number os)"
    and "\<forall>x \<in> set os. number opt \<le> number x \<and> number x \<le> number opt + 65803 \<and> length (raw x) \<le> 65803"
    by auto
  from Cons.IH [OF this] w1 w2 b show ?case by simp
qed


lemma encode_succeeds:
  assumes "\<forall>x \<in> set os. 0 \<le> number x \<and> number x \<le> 65803 \<and> length (raw x) \<le> 65803"
  shows "\<exists>bs. fst (encode (foldl addOption Options_init os)) = Inr bs"
proof -
  have "sorted (map number (sort_key number os))" by (rule sorted_sort_key)
  moreover from assms have "\<forall>x \<in> set (sort_key number os).
      0 \<le> number x \<and> number x \<le> 0 + 65803 \<and> length (raw x) \<le> 65803"
    by simp
  ultimately obtain d where "encode_loop [] 0 (sort_key number os) = Inr d"
    using encode_loop_succeeds [of "sort_key number os" 0 "[]"] by blast
  then show ?thesis by (simp add: encode_def optionList_adds)
qed

lemma decode_marker:
  "uint b = 0xFF \<Longrightarrow> decode_loop self n (b # rawdata) = Inr (self, Bytes rawdata)"
  by simp

lemma decode_payload_cases:
  "decode_loop self n rawdata = Inr (self', p) \<Longrightarrow>
     p = Str [] \<or> (\<exists>pre b post. rawdata = pre @ b # post \<and> uint b = 0xFF \<and> p = Bytes post)"
proof (induction self n rawdata rule: decode_loop.induct)
  case (1 self option_number)
  then show ?case by simp
next
  case (2 self option_number b rawdata)
  show ?case
  proof (cases "uint b = 0xFF")
    case True
    with "2.prems" have "p = Bytes rawdata" by simp
    with True have "b # rawdata = [] @ b # rawdata \<and> uint b = 0xFF \<and> p = Bytes rawdata" by simp
    then show ?thesis by blast
  next
    case False
    from "2.prems" False obtain delta rawdata1 where
      r1: "readExtendedFieldValue (drop_bit 4 (uint b AND 0xF0)) rawdata = Inr (delta, rawdata1)"
      by (cases "readExtendedFieldValue (drop_bit 4 (uint b AND 0xF0)) rawdata") auto
    from "2.prems" False r1 obtain len rawdata2 where
      r2: "readExtendedFieldValue (uint b AND 0x0F) rawdata1 = Inr (len, rawdata2)"
      by (cases "readExtendedFieldValue (uint b AND 0x0F) rawdata1") auto
    have suffix1: "\<exists>pre. bs = pre @ r" if "readExtendedFieldValue v bs = Inr (x, r)" for v bs x r
    proof -
      from that have "r = bs \<or> r = drop 1 bs \<or> r = drop 2 bs"
        by (auto simp add: readExtendedFieldValue_def split: if_splits list.splits sum.splits)
      then show ?thesis by (metis append_Nil append_take_drop_id)
    qed
    from suffix1 [OF r1] obtain p1 where p1: "rawdata = p1 @ rawdata1" by blast
    from suffix1 [OF r2] obtain p2 where p2: "rawdata1 = p2 @ rawdata2" by blast
    obtain p3 where p3: "rawdata2 = p3 @ slice_from len rawdata2"
      by (metis slice_from_def append_take_drop_id)
    let ?self = "addOption self
        (create_option_decode (option_number + delta) (slice_to len rawdata2))"
    from "2.prems" False r1 r2
    have "decode_loop ?self (option_number + delta) (slice_from len rawdata2) = Inr (self', p)"
      by simp
    with "2.IH" [OF False r1 refl r2 refl]
    have "p = Str [] \<or> (\<exists>pre b' post. slice_from len rawdata2 = pre @ b' # post
            \<and> uint b' = 0xFF \<and> p = Bytes post)"
      by simp
    then show ?thesis
    proof
      assume "p = Str []"
      then show ?thesis ..
    next
      assume "\<exists>pre b' post. slice_from len rawdata2 = pre @ b' # post \<and> uint b' = 0xFF \<and> p = Bytes post"
      then obtain pre b' post where
        *: "slice_from len rawdata2 = pre @ b' # post" "uint b' = 0xFF" "p = Bytes post"
        by blast
      from p1 p2 p3 *(1) have "b # rawdata = (b # p1 @ p2 @ p3 @ pre) @ b' # post"
        by (metis append_Cons append_assoc)
      with *(2,3) show ?thesis by blast
    qed
  qed
qed

lemma decode_without_marker:
  assumes "\<forall>b \<in> set rawdata. uint b \<noteq> 0xFF" "decode self rawdata = Inr (self', p)"
  shows "p = Str []"
  using decode_payload_cases [of self 0 rawdata self' p] assms by (auto simp add: decode_def)

lemma view_delete_raises:
  "property_delete (single_value_view_deleter option_number) self = Inl TypeError"
  by (simp add: property_delete_def single_value_view_deleter_def)

lemma view_set_None:
  "property_set (single_value_view_setter option_number) self PyNone
     = Inr (deleteOption self option_number)"
  by (simp add: property_set_def single_value_view_setter_def)

lemma decode_loop_adds:
  "decode_loop self n rawdata = Inr (self', p) \<Longrightarrow> \<exists>os. self' = foldl addOption self os"
proof (induction self n rawdata rule: decode_loop.induct)
  case (1 self option_number)
  then have "self' = foldl addOption self []" by simp
  then show ?case ..
next
  case (2 self option_number b rawdata)
  show ?case
  proof (cases "uint b = 0xFF")
    case True
    with "2.prems" have "self' = foldl addOption self []" by simp
    then show ?thesis ..
  next
    case False
    from "2.prems" False obtain delta after_delta where
      r1: "readExtendedFieldValue (drop_bit 4 (uint b AND 0xF0)) rawdata = Inr (delta, after_delta)"
      by (cases "readExtendedFieldValue (drop_bit 4 (uint b AND 0xF0)) rawdata") auto
    from "2.prems" False r1 obtain len after_len where
      r2: "readExtendedFieldValue (uint b AND 0x0F) after_delta = Inr (len, after_len)"
      by (cases "readExtendedFieldValue (uint b AND 0x0F) after_delta") auto
    let ?opt = "create_option_decode (option_number + delta) (slice_to len after_len)"
    from "2.prems" False r1 r2
    have "decode_loop (addOption self ?opt) (option_number + delta) (slice_from len after_len)
            = Inr (self', p)"
      by simp
    with "2.IH" [OF False r1 refl r2 refl]
    obtain os where "self' = foldl addOption (addOption self ?opt) os" by blast
    then have "self' = foldl addOption self (?opt # os)" by simp
    then show ?thesis ..
  qed
qed

lemma view_set_None_state:
  assumes "dict_inv self"
  shows "\<exists>self'. property_set (single_value_view_setter k) self PyNone = Inr self'
           \<and> (\<forall>n. getOption self' n = (if n = k then [] else getOption self n))"
  using assms by (simp add: view_set_None getOption_deleteOption)


section \<open>The container in the store\<close>

subsection \<open>What encode writes\<close>

lemma list_append_bytes_frame:
  assumes "list_append_bytes a v t = (res, t')"
  shows "fresh t' = fresh t \<and> (\<forall>b. b \<noteq> a \<longrightarrow> heap t' b = heap t b)"
  using assms by (auto simp add: list_append_bytes_def split: option.splits pyobj.splits)

lemma h_encode_body_frame:
  assumes "h_encode_body data cur opt s = (res, s')"
  shows "fresh s' = fresh s \<and> (\<forall>b. b \<noteq> data \<longrightarrow> heap s' b = heap s b)"
  using assms
  by (auto simp add: h_encode_body_def split: sum.splits prod.splits
      dest!: list_append_bytes_frame)

lemma h_encode_loop_frame:
  "h_encode_loop data it j i cur s = (res, s') \<Longrightarrow>
     fresh s' = fresh s \<and> (\<forall>b. b \<noteq> data \<longrightarrow> heap s' b = heap s b)"
proof (induction data it j i cur s rule: h_encode_loop.induct)
  case (1 data it j i cur s)
  show ?case
  proof (cases "heap s it")
    case None
    with "1.prems" show ?thesis by (simp add: h_encode_loop.simps)
  next
    case (Some v)
    show ?thesis
    proof (cases v)
      case (RefList refs)
      note it = Some RefList
      show ?thesis
      proof (cases "j < length refs")
        case False
        with "1.prems" it show ?thesis by (simp add: h_encode_loop.simps)
      next
        case j: True
        show ?thesis
        proof (cases "heap s (refs ! j)")
          case None
          with "1.prems" it j show ?thesis by (simp add: h_encode_loop.simps)
        next
          case (Some w)
          show ?thesis
          proof (cases w)
            case (OptList xs)
            note r = \<open>heap s (refs ! j) = Some w\<close> OptList
            show ?thesis
            proof (cases "i < length xs")
              case False
              with "1.prems" it j r
              have "h_encode_loop data it (Suc j) 0 cur s = (res, s')"
                by (simp add: h_encode_loop.simps [of data it j])
              with "1.IH"(2) [OF it j r False] show ?thesis by simp
            next
              case i: True
              obtain x y where b: "h_encode_body data cur (xs ! i) s = (x, y)"
                by (cases "h_encode_body data cur (xs ! i) s")
              from h_encode_body_frame [OF b]
              have fr: "fresh y = fresh s" "\<forall>b. b \<noteq> data \<longrightarrow> heap y b = heap s b"
                by simp_all
              show ?thesis
              proof (cases x)
                case (Inl e)
                with "1.prems" it j r i b have "s' = y"
                  by (simp add: h_encode_loop.simps [of data it j])
                with fr show ?thesis by simp
              next
                case (Inr c)
                with "1.prems" it j r i b
                have "h_encode_loop data it j (Suc i) c y = (res, s')"
                  by (simp add: h_encode_loop.simps [of data it j i])
                with "1.IH"(1) [OF it j r i b [symmetric] Inr] fr show ?thesis by simp
              qed
            qed
          qed (use "1.prems" it j Some in \<open>simp_all add: h_encode_loop.simps\<close>)
        qed
      qed
    qed (use "1.prems" Some in \<open>simp_all add: h_encode_loop.simps\<close>)
  qed
qed

lemma new_object_frame:
  assumes "new_object v s = (a, s')"
  shows "a = fresh s \<and> fresh s' = Suc (fresh s) \<and> heap s' a = Some v
         \<and> (\<forall>b. b \<noteq> a \<longrightarrow> heap s' b = heap s b)"
  using assms by (auto simp add: new_object_def)

lemma h_optionList_frame:
  assumes "h_optionList self s = (res, s')"
  shows "fresh s \<le> fresh s' \<and> (\<forall>b. b < fresh s \<longrightarrow> heap s' b = heap s b)"
  using assms
  by (auto simp add: h_optionList_def new_object_def
      split: option.splits pyobj.splits sum.splits)

lemma h_encode_frame:
  assumes "h_encode self s = (res, s')"
  shows "\<forall>b. b < fresh s \<longrightarrow> heap s' b = heap s b"
proof -
  define s1 where "s1 = snd (new_object (BytesList []) s)"
  have n: "new_object (BytesList []) s = (fresh s, s1)"
    by (simp add: s1_def new_object_def)
  from new_object_frame [OF n]
  have s1: "fresh s1 = Suc (fresh s)" "\<forall>b. b \<noteq> fresh s \<longrightarrow> heap s1 b = heap s b"
    by simp_all
  obtain r s2 where o: "h_optionList self s1 = (r, s2)"
    by (cases "h_optionList self s1")
  from h_optionList_frame [OF o]
  have s2: "\<forall>b. b < fresh s1 \<longrightarrow> heap s2 b = heap s1 b" by simp
  have base: "\<forall>b. b < fresh s \<longrightarrow> heap s2 b = heap s b"
    using s1 s2 by simp
  show ?thesis
  proof (cases r)
    case (Inl e)
    with assms n o have "s' = s2" by (simp add: h_encode_def)
    with base show ?thesis by simp
  next
    case (Inr it)
    obtain x s3 where l: "h_encode_loop (fresh s) it 0 0 0 s2 = (x, s3)"
      by (cases "h_encode_loop (fresh s) it 0 0 0 s2")
    from h_encode_loop_frame [OF l]
    have s3: "\<forall>b. b \<noteq> fresh s \<longrightarrow> heap s3 b = heap s2 b" by simp
    from assms n o Inr l have "s' = s3"
      by (auto simp add: h_encode_def split: sum.splits option.splits pyobj.splits)
    with s3 base show ?thesis by simp
  qed
qed

subsection \<open>The store and the dict it stands for\<close>

lemma insort_key_decorate:
  "insort_key fst (f a, a) (map (\<lambda>x. (f x, x)) ys) = map (\<lambda>x. (f x, x)) (insort_key f a ys)"
  by (induction ys) simp_all

lemma sort_key_decorate:
  "sort_key fst (zip (map f xs) xs) = map (\<lambda>x. (f x, x)) (sort_key f xs)"
  by (induction xs) (simp_all add: insort_key_decorate)

lemma insort_key_map:
  "map g (insort_key (\<lambda>x. h (g x)) a ys) = insort_key h (g a) (map g ys)"
  by (induction ys) simp_all

lemma sort_key_map:
  "map g (sort_key (\<lambda>x. h (g x)) xs) = sort_key h (map g xs)"
  by (induction xs) (simp_all add: insort_key_map)

lemma sorted_refs:
  "map g (map snd (sort_key fst (zip (map (\<lambda>x. h (g x)) xs) xs))) = sort_key h (map g xs)"
  by (simp add: sort_key_decorate sort_key_map comp_def)

lemma first_numbers_opt_lists:
  assumes "list_all (\<lambda>r. is_opt_list (heap s r)) refs"
  shows "first_numbers s refs =
           (if list_ex (\<lambda>x. x = []) (map (list_at s) refs) then Inl IndexError
            else Inr (map (\<lambda>r. number (hd (list_at s r))) refs))"
  using assms
proof (induction refs)
  case Nil
  show ?case by simp
next
  case (Cons r refs)
  from Cons.prems obtain xs where r: "heap s r = Some (OptList xs)"
    by (auto simp add: is_opt_list_def split: option.splits pyobj.splits)
  from Cons have IH: "first_numbers s refs =
           (if list_ex (\<lambda>x. x = []) (map (list_at s) refs) then Inl IndexError
            else Inr (map (\<lambda>r. number (hd (list_at s r))) refs))" by simp
  from r have la: "list_at s r = xs" by (simp add: list_at_def)
  show ?case
  proof (cases xs)
    case Nil
    with r la show ?thesis by simp
  next
    case (Cons x xs')
    with r la IH show ?thesis by simp
  qed
qed

lemma h_encode_body_result:
  assumes "heap s data = Some (BytesList d)"
  shows "h_encode_body data cur opt s =
     (case writeExtendedFieldValue (number opt - cur) of
        Inl e \<Rightarrow> (Inl e, s)
      | Inr (delta, extended_delta) \<Rightarrow>
     (case writeExtendedFieldValue (opt_length opt) of
        Inl e \<Rightarrow> (Inl e, s)
      | Inr (len, extended_length) \<Rightarrow>
     (case py_bytes [push_bit 4 (delta AND 0x0F) + (len AND 0x0F)] of
        Inl e \<Rightarrow> (Inl e, s)
      | Inr head \<Rightarrow>
          (Inr (number opt),
           s\<lparr>heap := (heap s)(data \<mapsto>
                BytesList (d @ [head, extended_delta, extended_length, opt_encode opt]))\<rparr>))))"
  using assms
  by (simp add: h_encode_body_def list_append_bytes_def split: sum.splits prod.splits)

lemma h_encode_body_step:
  assumes "heap s data = Some (BytesList d)" "h_encode_body data cur opt s = (x, y)"
  shows "(\<forall>e. x = Inl e \<longrightarrow> (\<forall>rest. encode_loop d cur (opt # rest) = Inl e))
       \<and> (\<forall>c. x = Inr c \<longrightarrow>
            (\<exists>d'. heap y data = Some (BytesList d')
               \<and> (\<forall>rest. encode_loop d cur (opt # rest) = encode_loop d' c rest)))"
  using assms(2) unfolding h_encode_body_result [OF assms(1)]
  by (auto split: sum.splits prod.splits)

lemma opt_list_nth:
  assumes "list_all (\<lambda>r. is_opt_list (heap s r)) refs" "j < length refs"
  shows "\<exists>xs. heap s (refs ! j) = Some (OptList xs)"
proof -
  from assms have "is_opt_list (heap s (refs ! j))" by (simp add: list_all_length)
  then show ?thesis by (auto simp add: is_opt_list_def split: option.splits pyobj.splits)
qed

lemma h_encode_loop_refines:
  "h_encode_loop data it j i cur s = (res, s') \<Longrightarrow>
   heap s it = Some (RefList refs) \<Longrightarrow>
   heap s data = Some (BytesList d) \<Longrightarrow>
   list_all (\<lambda>r. is_opt_list (heap s r)) refs \<Longrightarrow>
   (j < length refs \<longrightarrow> i \<le> length (list_at s (refs ! j))) \<Longrightarrow>
   (case encode_loop d cur (drop i (concat (map (list_at s) (drop j refs)))) of
      Inl e \<Rightarrow> res = Inl e
    | Inr d' \<Rightarrow> res = Inr () \<and> heap s' data = Some (BytesList d'))"
proof (induction data it j i cur s arbitrary: d rule: h_encode_loop.induct)
  case (1 data it j i cur s)
  note it = \<open>heap s it = Some (RefList refs)\<close>
  note dat = \<open>heap s data = Some (BytesList d)\<close>
  note all = \<open>list_all (\<lambda>r. is_opt_list (heap s r)) refs\<close>
  note run = \<open>h_encode_loop data it j i cur s = (res, s')\<close>
  show ?case
  proof (cases "j < length refs")
    case False
    with run it have "res = Inr ()" "s' = s" by (simp_all add: h_encode_loop.simps)
    with False dat show ?thesis by simp
  next
    case j: True
    from opt_list_nth [OF all j] obtain xs where r: "heap s (refs ! j) = Some (OptList xs)" ..
    then have la: "list_at s (refs ! j) = xs" by (simp add: list_at_def)
    define rest where "rest = concat (map (list_at s) (drop (Suc j) refs))"
    from j have "drop j refs = refs ! j # drop (Suc j) refs" by (simp add: Cons_nth_drop_Suc)
    then have blocks: "concat (map (list_at s) (drop j refs)) = xs @ rest"
      by (simp add: la rest_def)
    from "1.prems"(5) j la have ile: "i \<le> length xs" by simp
    show ?thesis
    proof (cases "i < length xs")
      case False
      with ile have "i = length xs" by simp
      then have rem: "drop i (concat (map (list_at s) (drop j refs))) =
          drop 0 (concat (map (list_at s) (drop (Suc j) refs)))"
        by (simp add: blocks rest_def)
      from run it j r False have "h_encode_loop data it (Suc j) 0 cur s = (res, s')"
        by (simp add: h_encode_loop.simps [of data it j])
      from "1.IH"(2) [OF it refl j r refl False this it dat all] show ?thesis
        by (simp only: rem) simp
    next
      case i: True
      then have rem: "drop i (concat (map (list_at s) (drop j refs))) =
          xs ! i # drop (Suc i) (concat (map (list_at s) (drop j refs)))"
        by (simp add: blocks Cons_nth_drop_Suc)
      obtain x y where b: "h_encode_body data cur (xs ! i) s = (x, y)"
        by (cases "h_encode_body data cur (xs ! i) s")
      note step = h_encode_body_step [OF dat b]
      from h_encode_body_frame [OF b]
      have fr: "\<forall>b. b \<noteq> data \<longrightarrow> heap y b = heap s b" by simp
      show ?thesis
      proof (cases x)
        case (Inl e)
        with run it j r i b have "res = Inl e"
          by (simp add: h_encode_loop.simps [of data it j])
        with step Inl show ?thesis by (simp add: rem)
      next
        case (Inr c)
        with run it j r i b
        have run': "h_encode_loop data it j (Suc i) c y = (res, s')"
          by (simp add: h_encode_loop.simps [of data it j i])
        from step Inr obtain d' where d': "heap y data = Some (BytesList d')"
          and enc: "\<forall>rest. encode_loop d cur (xs ! i # rest) = encode_loop d' c rest"
          by blast
        have same: "heap y a = heap s a" if "is_opt_list (heap s a) \<or> a = it" for a
        proof -
          from that it dat have "a \<noteq> data" by (auto simp add: is_opt_list_def)
          with fr show ?thesis by simp
        qed
        have it': "heap y it = Some (RefList refs)" using it by (simp add: same)
        have all': "list_all (\<lambda>r. is_opt_list (heap y r)) refs"
          using all by (simp add: list_all_iff same)
        have lists: "map (list_at y) (drop j refs) = map (list_at s) (drop j refs)"
        proof (rule map_cong [OF refl])
          fix a assume "a \<in> set (drop j refs)"
          then have "a \<in> set refs" by (rule in_set_dropD)
          with all have "is_opt_list (heap s a)" by (simp add: list_all_iff)
          then show "list_at y a = list_at s a" by (simp add: list_at_def same)
        qed
        have "is_opt_list (heap s (refs ! j))" using r by (simp add: is_opt_list_def)
        then have "list_at y (refs ! j) = xs" using la by (simp add: list_at_def same)
        with i have idx: "j < length refs \<longrightarrow> Suc i \<le> length (list_at y (refs ! j))" by simp
        have unfold: "encode_loop d cur (drop i (concat (map (list_at s) (drop j refs)))) =
            encode_loop d' c (drop (Suc i) (concat (map (list_at y) (drop j refs))))"
          by (simp only: rem enc [rule_format] lists)
        from "1.IH"(1) [OF it refl j r refl i b [symmetric] Inr run' it' d' all' idx]
        show ?thesis by (simp only: unfold)
      qed
    qed
  qed
qed

lemma h_encode_fresh:
  assumes "h_encode self s = (res, s')"
  shows "fresh s \<le> fresh s'"
proof -
  define s1 where "s1 = snd (new_object (BytesList []) s)"
  have n: "new_object (BytesList []) s = (fresh s, s1)"
    by (simp add: s1_def new_object_def)
  from new_object_frame [OF n] have s1: "fresh s1 = Suc (fresh s)" by simp
  obtain r s2 where o: "h_optionList self s1 = (r, s2)"
    by (cases "h_optionList self s1")
  from h_optionList_frame [OF o] s1 have s2: "fresh s \<le> fresh s2" by simp
  show ?thesis
  proof (cases r)
    case (Inl e)
    with assms n o have "s' = s2" by (simp add: h_encode_def)
    with s2 show ?thesis by simp
  next
    case (Inr it)
    obtain x s3 where l: "h_encode_loop (fresh s) it 0 0 0 s2 = (x, s3)"
      by (cases "h_encode_loop (fresh s) it 0 0 0 s2")
    from h_encode_loop_frame [OF l] have s3: "fresh s3 = fresh s2" by simp
    from assms n o Inr l have "s' = s3"
      by (auto simp add: h_encode_def split: sum.splits option.splits pyobj.splits)
    with s3 s2 show ?thesis by simp
  qed
qed

lemma wf_storeD:
  assumes "wf_store s self"
  obtains d where "heap s self = Some (Dict d)" "self < fresh s"
    "\<forall>r \<in> set (map snd d). r < fresh s \<and> is_opt_list (heap s r)" "distinct (map snd d)"
  using assms
  by (auto simp add: wf_store_def list_all_iff split: option.splits pyobj.splits)

lemma options_of_frame:
  assumes "wf_store s self" "\<forall>b. b < fresh s \<longrightarrow> heap s' b = heap s b"
  shows "options_of s' self = options_of s self"
proof -
  from assms(1) obtain d where d: "heap s self = Some (Dict d)" "self < fresh s"
    "\<forall>r \<in> set (map snd d). r < fresh s \<and> is_opt_list (heap s r)"
    by (rule wf_storeD)
  from d assms(2) have d': "heap s' self = Some (Dict d)" by simp
  have "map (\<lambda>(k, r). (k, list_at s' r)) d = map (\<lambda>(k, r). (k, list_at s r)) d"
  proof (rule map_cong [OF refl])
    fix p assume "p \<in> set d"
    with d(3) have "snd p < fresh s" by simp
    with assms(2) have "list_at s' (snd p) = list_at s (snd p)" by (simp add: list_at_def)
    then show "(case p of (k, r) \<Rightarrow> (k, list_at s' r)) = (case p of (k, r) \<Rightarrow> (k, list_at s r))"
      by (cases p) simp
  qed
  with d(1) d' show ?thesis by (simp add: options_of_def)
qed

lemma wf_store_frame:
  assumes "wf_store s self" "\<forall>b. b < fresh s \<longrightarrow> heap s' b = heap s b" "fresh s \<le> fresh s'"
  shows "wf_store s' self"
proof -
  from assms(1) obtain d where d: "heap s self = Some (Dict d)" "self < fresh s"
    "\<forall>r \<in> set (map snd d). r < fresh s \<and> is_opt_list (heap s r)" "distinct (map snd d)"
    by (rule wf_storeD)
  from d assms(2) have "heap s' self = Some (Dict d)" by simp
  moreover from d assms have "self < fresh s'" by simp
  moreover from d(3) assms(2,3)
  have "\<forall>r \<in> set (map snd d). r < fresh s' \<and> is_opt_list (heap s' r)" by fastforce
  ultimately show ?thesis using d(4) by (simp add: wf_store_def list_all_iff)
qed

lemma h_encode_refines:
  assumes "wf_store s self"
  shows "fst (h_encode self s) = fst (encode (options_of s self))"
proof -
  from assms obtain dict where d: "heap s self = Some (Dict dict)" "self < fresh s"
    "\<forall>r \<in> set (map snd dict). r < fresh s \<and> is_opt_list (heap s r)"
    by (rule wf_storeD)
  define refs where "refs = map snd dict"
  define data where "data = fresh s"
  define s1 where "s1 = s\<lparr>heap := (heap s)(data \<mapsto> BytesList []), fresh := Suc (fresh s)\<rparr>"
  have n: "new_object (BytesList []) s = (data, s1)"
    by (simp add: s1_def data_def new_object_def)
  have old1: "heap s1 b = heap s b" if "b < fresh s" for b
    using that by (simp add: s1_def data_def)
  have self1: "heap s1 self = Some (Dict dict)" using d by (simp add: old1)
  have refs_old: "r < fresh s" "is_opt_list (heap s r)" if "r \<in> set refs" for r
    using that d(3) by (auto simp add: refs_def)
  have all1: "list_all (\<lambda>r. is_opt_list (heap s1 r)) refs"
    using refs_old by (simp add: list_all_iff old1)
  have la1: "list_at s1 r = list_at s r" if "r \<in> set refs" for r
    using refs_old(1) [OF that] by (simp add: list_at_def old1)
  have vals: "map snd (options_of s self) = map (list_at s) refs"
    using d(1) by (simp add: options_of_def refs_def comp_def case_prod_unfold)
  have vals1: "map (list_at s1) refs = map (list_at s) refs"
    using la1 by simp
  note fn = first_numbers_opt_lists [OF all1]
  show ?thesis
  proof (cases "list_ex (\<lambda>x. x = []) (map (list_at s) refs)")
    case True
    then have "h_optionList self s1 = (Inl IndexError, s1)"
      using self1 fn by (simp add: h_optionList_def refs_def [symmetric] vals1)
    with n have "fst (h_encode self s) = Inl IndexError" by (simp add: h_encode_def)
    moreover from True have "optionList (options_of s self) = Inl IndexError"
      by (simp add: optionList_def vals)
    ultimately show ?thesis by (simp add: encode_def)
  next
    case False
    define key where "key = (\<lambda>x :: coap_option list. number (hd x))"
    define srt where "srt = map snd (sort_key fst (zip (map (\<lambda>r. key (list_at s1 r)) refs) refs))"
    define it where "it = fresh s1"
    define s2 where "s2 = s1\<lparr>heap := (heap s1)(it \<mapsto> RefList srt), fresh := Suc (fresh s1)\<rparr>"
    from False have ol: "h_optionList self s1 = (Inr it, s2)"
      using self1 fn
      by (simp add: h_optionList_def refs_def [symmetric] vals1 new_object_def
          srt_def key_def it_def s2_def)
    have ne: "it \<noteq> data" by (simp add: it_def s1_def data_def)
    have it2: "heap s2 it = Some (RefList srt)" by (simp add: s2_def)
    have dat2: "heap s2 data = Some (BytesList [])" using ne by (simp add: s2_def s1_def)
    have old2: "heap s2 b = heap s b" if "b < fresh s" for b
      using that by (simp add: s2_def it_def s1_def data_def)
    have z: "map snd (zip (map (\<lambda>r. key (list_at s1 r)) refs) refs) = refs"
      by (simp add: map_snd_zip)
    have "set srt = snd ` set (zip (map (\<lambda>r. key (list_at s1 r)) refs) refs)"
      by (simp add: srt_def)
    also have "\<dots> = set (map snd (zip (map (\<lambda>r. key (list_at s1 r)) refs) refs))"
      by (simp only: set_map)
    also have "\<dots> = set refs" by (simp only: z)
    finally have set_srt: "set srt = set refs" .
    have all2: "list_all (\<lambda>r. is_opt_list (heap s2 r)) srt"
      using refs_old by (simp add: list_all_iff set_srt old2)
    have la2: "list_at s2 r = list_at s r" if "r \<in> set refs" for r
      using refs_old(1) [OF that] by (simp add: list_at_def old2)
    have "map (list_at s2) srt = map (list_at s1) srt"
      using la1 la2 by (simp add: set_srt)
    also have "\<dots> = sort_key key (map (list_at s1) refs)"
      unfolding srt_def by (rule sorted_refs)
    also have "\<dots> = sort_key key (map snd (options_of s self))"
      by (simp only: vals vals1)
    finally have blocks: "map (list_at s2) srt = sort_key key (map snd (options_of s self))" .
    from False have pure: "optionList (options_of s self) =
        Inr (concat (sort_key key (map snd (options_of s self))))"
      by (simp add: optionList_def vals key_def)
    obtain x s3 where l: "h_encode_loop data it 0 0 0 s2 = (x, s3)"
      by (cases "h_encode_loop data it 0 0 0 s2")
    from h_encode_loop_refines [OF l it2 dat2 all2]
    have rel: "case encode_loop [] 0 (concat (sort_key key (map snd (options_of s self)))) of
        Inl e \<Rightarrow> x = Inl e
      | Inr d' \<Rightarrow> x = Inr () \<and> heap s3 data = Some (BytesList d')"
      by (simp add: blocks)
    show ?thesis
    proof (cases "encode_loop [] 0 (concat (sort_key key (map snd (options_of s self))))")
      case (Inl e)
      with rel have "x = Inl e" by simp
      with n ol l have "fst (h_encode self s) = Inl e" by (simp add: h_encode_def)
      with pure Inl show ?thesis by (simp add: encode_def)
    next
      case (Inr d')
      with rel have "x = Inr ()" "heap s3 data = Some (BytesList d')" by simp_all
      with n ol l have "fst (h_encode self s) = Inr (concat d')" by (simp add: h_encode_def)
      with pure Inr show ?thesis by (simp add: encode_def)
    qed
  qed
qed

lemma write_error: "writeExtendedFieldValue v = Inl e \<Longrightarrow> e = ValueError"
  by (auto simp add: writeExtendedFieldValue_def struct_pack_B_def struct_pack_H_def
      split: if_splits)

lemma encode_loop_error: "encode_loop data cur os = Inl e \<Longrightarrow> e = ValueError"
proof (induction os arbitrary: data cur)
  case Nil
  then show ?case by simp
next
  case (Cons opt os)
  show ?case
  proof (cases "writeExtendedFieldValue (number opt - cur)")
    case (Inl e1)
    with Cons.prems write_error [OF Inl] show ?thesis by simp
  next
    case w1: (Inr p1)
    obtain dn dext where p1: "p1 = (dn, dext)" by (cases p1)
    show ?thesis
    proof (cases "writeExtendedFieldValue (opt_length opt)")
      case (Inl e2)
      with Cons.prems w1 p1 write_error [OF Inl] show ?thesis by simp
    next
      case w2: (Inr p2)
      obtain ln lext where p2: "p2 = (ln, lext)" by (cases p2)
      from write_Inr [OF w1 [unfolded p1]] have dn: "0 \<le> dn" "dn \<le> 14" by simp_all
      from write_Inr [OF w2 [unfolded p2]] have ln: "0 \<le> ln" "ln \<le> 14" by simp_all
      from header_byte [OF dn ln] obtain b where
        "py_bytes [push_bit 4 (dn AND 0x0F) + (ln AND 0x0F)] = Inr [b]" by blast
      with Cons.prems w1 p1 w2 p2
      have "encode_loop (data @ [[b], dext, lext, opt_encode opt]) (number opt) os = Inl e"
        by simp
      then show ?thesis by (rule Cons.IH)
    qed
  qed
qed

lemma encode_error:
  assumes "dict_inv self" "fst (encode self) = Inl e"
  shows "e = ValueError"
proof -
  from assms(2) optionList_Inr [OF assms(1)]
  have "encode_loop [] 0 (concat (sort_key (\<lambda>x. number (hd x)) (map snd self))) = Inl e"
    by (simp add: encode_def split: sum.splits)
  then show ?thesis by (rule encode_loop_error)
qed

subsection \<open>The operations of the container on the store\<close>

lemma h_Options_init_wf:
  assumes "h_Options_init s = (self, s')"
  shows "wf_store s' self \<and> options_of s' self = Options_init"
  using assms
  by (auto simp add: h_Options_init_def new_object_def wf_store_def options_of_def
      Options_init_def)

lemma setdefault_append_present:
  assumes "map_of d k = Some r" "distinct (map snd d)"
  shows "setdefault_append k x (map (\<lambda>(k', r'). (k', f r')) d) =
           map (\<lambda>(k', r'). (k', if r' = r then f r @ [x] else f r')) d"
  using assms
proof (induction d)
  case Nil
  then show ?case by simp
next
  case (Cons p d)
  obtain k' r' where p: "p = (k', r')" by (cases p)
  show ?case
  proof (cases "k' = k")
    case True
    with Cons.prems p have r: "r' = r" "r \<notin> snd ` set d" by auto
    then have "map (\<lambda>(k', r'). (k', if r' = r then f r @ [x] else f r')) d =
        map (\<lambda>(k', r'). (k', f r')) d"
      by (intro map_cong) force+
    with True p r show ?thesis by simp
  next
    case False
    with Cons.prems p have m: "map_of d k = Some r" "distinct (map snd d)" by simp_all
    from m(1) have "(k, r) \<in> set d" by (rule map_of_SomeD)
    then have "r \<in> snd ` set d" by force
    with Cons.prems p have "r' \<noteq> r" by auto
    with Cons.IH [OF m] False p show ?thesis by simp
  qed
qed

lemma setdefault_append_absent:
  "k \<notin> fst ` set d \<Longrightarrow> setdefault_append k x d = d @ [(k, [x])]"
  by (induction d) auto

lemma ref_pop_dict_pop:
  "map (\<lambda>(k, r). (k, f r)) (ref_pop n d) = dict_pop n (map (\<lambda>(k, r). (k, f r)) d)"
  by (induction d) auto

lemma set_ref_pop: "p \<in> set (ref_pop n d) \<Longrightarrow> p \<in> set d"
  by (induction d) (auto split: if_splits)

lemma distinct_ref_pop: "distinct (map snd d) \<Longrightarrow> distinct (map snd (ref_pop n d))"
  by (induction d) (auto dest!: set_ref_pop)

lemma keys_options_of:
  "heap s self = Some (Dict d) \<Longrightarrow> map fst (options_of s self) = map fst d"
  by (simp add: options_of_def comp_def case_prod_unfold)

lemma h_deleteOption_wf:
  assumes "wf_store s self"
  shows "\<exists>s'. h_deleteOption self n s = (Inr (), s') \<and> wf_store s' self
          \<and> options_of s' self = deleteOption (options_of s self) n"
proof -
  from assms obtain d where d: "heap s self = Some (Dict d)" "self < fresh s"
    "\<forall>r \<in> set (map snd d). r < fresh s \<and> is_opt_list (heap s r)" "distinct (map snd d)"
    by (rule wf_storeD)
  have keys: "fst ` set (options_of s self) = fst ` set d"
    using keys_options_of [OF d(1)] by (metis set_map)
  show ?thesis
  proof (cases "n \<in> fst ` set d")
    case False
    with d(1) keys assms show ?thesis by (simp add: h_deleteOption_def deleteOption_def)
  next
    case True
    define s' where "s' = s\<lparr>heap := (heap s)(self \<mapsto> Dict (ref_pop n d))\<rparr>"
    from True d(1) have run: "h_deleteOption self n s = (Inr (), s')"
      by (simp add: h_deleteOption_def s'_def)
    have notself: "r \<noteq> self" if "r \<in> snd ` set d" for r
    proof
      assume "r = self"
      with that d(3) have "is_opt_list (heap s self)" by auto
      with d(1) show False by (simp add: is_opt_list_def)
    qed
    have la: "list_at s' r = list_at s r" if "r \<in> snd ` set d" for r
      using notself [OF that] by (simp add: list_at_def s'_def)
    have "map (\<lambda>(k, r). (k, list_at s' r)) (ref_pop n d) =
        map (\<lambda>(k, r). (k, list_at s r)) (ref_pop n d)"
      by (intro map_cong) (auto dest!: set_ref_pop simp add: la rev_image_eqI)
    then have "options_of s' self = dict_pop n (options_of s self)"
      using d(1) by (simp add: options_of_def s'_def ref_pop_dict_pop)
    with True keys have o: "options_of s' self = deleteOption (options_of s self) n"
      by (simp add: deleteOption_def)
    have "\<forall>r \<in> set (map snd (ref_pop n d)). r < fresh s' \<and> is_opt_list (heap s' r)"
    proof
      fix r assume "r \<in> set (map snd (ref_pop n d))"
      then have r: "r \<in> snd ` set d" by (auto dest!: set_ref_pop simp add: rev_image_eqI)
      with d(3) notself [OF r] show "r < fresh s' \<and> is_opt_list (heap s' r)"
        by (auto simp add: s'_def)
    qed
    with d(2,4) have "wf_store s' self"
      by (simp add: wf_store_def s'_def list_all_iff distinct_ref_pop)
    with run o show ?thesis by blast
  qed
qed

lemma h_addOption_wf:
  assumes "wf_store s self"
  shows "\<exists>s'. h_addOption self opt s = (Inr (), s') \<and> wf_store s' self
          \<and> options_of s' self = addOption (options_of s self) opt"
proof -
  from assms obtain d where d: "heap s self = Some (Dict d)" "self < fresh s"
    "\<forall>r \<in> set (map snd d). r < fresh s \<and> is_opt_list (heap s r)" "distinct (map snd d)"
    by (rule wf_storeD)
  have ref: "r < fresh s" "is_opt_list (heap s r)" "r \<noteq> self" if "r \<in> snd ` set d" for r
  proof -
    from that d(3) show "r < fresh s" "is_opt_list (heap s r)" by auto
    with d(1) show "r \<noteq> self" by (auto simp add: is_opt_list_def)
  qed
  have abs: "options_of s self = map (\<lambda>(k, r). (k, list_at s r)) d"
    using d(1) by (simp add: options_of_def)
  show ?thesis
  proof (cases "map_of d (number opt)")
    case (Some r)
    then have "(number opt, r) \<in> set d" by (rule map_of_SomeD)
    then have r: "r \<in> snd ` set d" by force
    from ref(2) [OF r] obtain xs where xs: "heap s r = Some (OptList xs)"
      by (auto simp add: is_opt_list_def split: option.splits pyobj.splits)
    define s' where "s' = s\<lparr>heap := (heap s)(r \<mapsto> OptList (xs @ [opt]))\<rparr>"
    from d(1) Some xs have run: "h_addOption self opt s = (Inr (), s')"
      by (simp add: h_addOption_def list_append_option_def s'_def)
    from ref(3) [OF r] d(1) have self': "heap s' self = Some (Dict d)" by (simp add: s'_def)
    have la: "list_at s' a = (if a = r then list_at s r @ [opt] else list_at s a)" for a
      using xs by (simp add: list_at_def s'_def)
    have "options_of s' self =
        map (\<lambda>(k', r'). (k', if r' = r then list_at s r @ [opt] else list_at s r')) d"
      using self' by (simp add: options_of_def la)
    also have "\<dots> = setdefault_append (number opt) opt (map (\<lambda>(k', r'). (k', list_at s r')) d)"
      using Some d(4) by (rule setdefault_append_present [symmetric])
    finally have o: "options_of s' self = addOption (options_of s self) opt"
      by (simp add: addOption_def abs)
    have "\<forall>a \<in> set (map snd d). a < fresh s' \<and> is_opt_list (heap s' a)"
      using ref by (auto simp add: s'_def is_opt_list_def)
    with self' d(2,4) have "wf_store s' self" by (simp add: wf_store_def list_all_iff s'_def)
    with run o show ?thesis by blast
  next
    case None
    then have absent: "number opt \<notin> fst ` set d" by (simp add: map_of_eq_None_iff)
    define r where "r = fresh s"
    define d' where "d' = d @ [(number opt, r)]"
    define s' where "s' = s\<lparr>heap := (heap s)(r \<mapsto> OptList [], self \<mapsto> Dict d',
        r \<mapsto> OptList [opt]), fresh := Suc (fresh s)\<rparr>"
    from d(2) have rs: "r \<noteq> self" by (simp add: r_def)
    have run: "h_addOption self opt s = (Inr (), s')"
      using d(1) None rs
      by (simp add: h_addOption_def new_object_def list_append_option_def r_def d'_def s'_def)
    have self': "heap s' self = Some (Dict d')" using rs by (simp add: s'_def)
    have new: "heap s' r = Some (OptList [opt])" using rs by (simp add: s'_def)
    have old: "heap s' a = heap s a" if "a \<in> snd ` set d" for a
    proof -
      from ref [OF that] have "a \<noteq> r" "a \<noteq> self" by (simp_all add: r_def)
      then show ?thesis by (simp add: s'_def)
    qed
    have la_new: "list_at s' r = [opt]" using new by (simp add: list_at_def)
    have la_old: "list_at s' a = list_at s a" if "a \<in> snd ` set d" for a
      by (simp add: list_at_def old [OF that])
    have m: "map (\<lambda>(k, a). (k, list_at s' a)) d = map (\<lambda>(k, a). (k, list_at s a)) d"
      by (intro map_cong) (auto simp add: la_old rev_image_eqI)
    have "options_of s' self = map (\<lambda>(k, a). (k, list_at s' a)) d'"
      using self' by (simp add: options_of_def)
    also have "\<dots> = map (\<lambda>(k, a). (k, list_at s a)) d @ [(number opt, [opt])]"
      by (simp add: d'_def m la_new)
    finally have "options_of s' self = options_of s self @ [(number opt, [opt])]"
      by (simp only: abs)
    moreover from absent have "number opt \<notin> fst ` set (options_of s self)"
      using keys_options_of [OF d(1)] by (metis set_map)
    ultimately have o: "options_of s' self = addOption (options_of s self) opt"
      by (simp add: addOption_def setdefault_append_absent)
    have "\<forall>a \<in> set (map snd d'). a < fresh s' \<and> is_opt_list (heap s' a)"
    proof
      fix a assume "a \<in> set (map snd d')"
      then consider "a = r" | "a \<in> snd ` set d" by (auto simp add: d'_def)
      then show "a < fresh s' \<and> is_opt_list (heap s' a)"
      proof cases
        case 1
        with new show ?thesis by (simp add: is_opt_list_def s'_def r_def)
      next
        case 2
        from ref(1,2) [OF 2] old [OF 2] show ?thesis by (simp add: s'_def)
      qed
    qed
    moreover have "distinct (map snd d')"
      using d(4) ref(1) by (auto simp add: d'_def r_def)
    moreover from d(2) have "self < fresh s'" by (simp add: s'_def)
    ultimately have "wf_store s' self" using self' by (simp add: wf_store_def list_all_iff)
    with run o show ?thesis by blast
  qed
qed

lemma h_run_wf: "wf_store (snd (h_run ms)) (fst (h_run ms))
   \<and> options_of (snd (h_run ms)) (fst (h_run ms)) = run ms"
proof (induction ms rule: rev_induct)
  case Nil
  obtain self s where i: "h_Options_init \<lparr>heap = Map.empty, fresh = 0\<rparr> = (self, s)"
    by (cases "h_Options_init \<lparr>heap = Map.empty, fresh = 0\<rparr>")
  from h_Options_init_wf [OF i] i show ?case by (simp add: h_run_def run_def)
next
  case (snoc m ms)
  obtain self s where r: "h_run ms = (self, s)" by (cases "h_run ms")
  with snoc have wf: "wf_store s self" and o: "options_of s self = run ms" by simp_all
  from r have step: "h_run (ms @ [m]) = (self, h_mutate self s m)"
    by (auto simp add: h_run_def split: prod.splits)
  have "run (ms @ [m]) = mutate (run ms) m" by (simp add: run_def)
  moreover have "wf_store (h_mutate self s m) self
      \<and> options_of (h_mutate self s m) self = mutate (options_of s self) m"
  proof (cases m)
    case (Add opt)
    with h_addOption_wf [OF wf, of opt] show ?thesis by auto
  next
    case (Delete n)
    with h_deleteOption_wf [OF wf, of n] show ?thesis by auto
  qed
  ultimately show ?case using step o by simp
qed

lemma h_encode_example:
  "fst (h_encode 0 \<lparr>heap = [0 \<mapsto> Dict [(11, 1), (5, 2)],
        1 \<mapsto> OptList [\<lparr>number = 11, raw = [1, 2, 3]\<rparr>, \<lparr>number = 11, raw = [9]\<rparr>],
        2 \<mapsto> OptList [\<lparr>number = 5, raw = []\<rparr>]], fresh = 3\<rparr>) = Inr [0x50, 0x63, 1, 2, 3, 0x01, 9]"
  by (simp add: h_encode_def new_object_def h_optionList_def h_encode_loop.simps
      h_encode_body_def list_append_bytes_def opt_length_def opt_encode_def
      writeExtendedFieldValue_def py_bytes_def push_bit_eq_mult)


section \<open>The claims\<close>

text \<open>
  C1. For every integer \<open>v\<close> from 0 to 65803, \<^verbatim>\<open>writeExtendedFieldValue(v)\<close>
  returns a nibble and extension bytes, and \<^verbatim>\<open>readExtendedFieldValue\<close> on that
  nibble and the extension bytes followed by any trailing bytes \<open>rest\<close> returns exactly
  \<open>(v, rest)\<close>: it recovers \<open>v\<close> and consumes the extension bytes and nothing more.
\<close>

theorem varint_roundtrip:
  assumes "0 \<le> v" "v \<le> 65803"
  shows "\<exists>nibble ext. writeExtendedFieldValue v = Inr (nibble, ext)
           \<and> readExtendedFieldValue nibble (ext @ rest) = Inr (v, rest)"
  using assms read_write [of v rest] by simp

theorem varint_roundtrip_witness:
  "(0::int) \<le> 300 \<and> (300::int) \<le> 65803
   \<and> (\<exists>nibble ext. writeExtendedFieldValue 300 = Inr (nibble, ext)
         \<and> readExtendedFieldValue nibble (ext @ [7, 9]) = Inr (300, [7, 9]))"
  using varint_roundtrip [of 300 "[7, 9]"] by simp



text \<open>
  C3. The tier chosen by \<^verbatim>\<open>writeExtendedFieldValue\<close> is the one of the wire format
  table: a value from 0 to 12 is its own nibble with no extension byte; a value from 13
  to 268 has nibble 13 and one extension byte holding the value minus 13; a value from
  269 to 65803 has nibble 14 and two extension bytes, most significant first, holding
  the value minus 269.
\<close>

theorem write_tier_table:
  "(0 \<le> v \<and> v \<le> 12 \<longrightarrow> writeExtendedFieldValue v = Inr (v, []))
   \<and> (13 \<le> v \<and> v \<le> 268 \<longrightarrow>
        (\<exists>b. writeExtendedFieldValue v = Inr (13, [b]) \<and> uint b = v - 13))
   \<and> (269 \<le> v \<and> v \<le> 65803 \<longrightarrow>
        (\<exists>hi lo. writeExtendedFieldValue v = Inr (14, [hi, lo])
           \<and> uint hi * 256 + uint lo = v - 269))"
proof (intro conjI impI)
  assume "0 \<le> v \<and> v \<le> 12"
  then show "writeExtendedFieldValue v = Inr (v, [])" by (simp add: write_tier_A)
next
  assume a: "13 \<le> v \<and> v \<le> 268"
  then have "uint (word_of_int (v - 13) :: byte) = v - 13"
    by (intro uint_byte_of_int) simp_all
  with a show "\<exists>b. writeExtendedFieldValue v = Inr (13, [b]) \<and> uint b = v - 13"
    by (simp add: write_tier_B)
next
  assume a: "269 \<le> v \<and> v \<le> 65803"
  then have "uint (word_of_int ((v - 269) div 256) :: byte) * 256
               + uint (word_of_int ((v - 269) mod 256) :: byte) = v - 269"
    by (intro big_endian_16) simp_all
  with a show "\<exists>hi lo. writeExtendedFieldValue v = Inr (14, [hi, lo])
                 \<and> uint hi * 256 + uint lo = v - 269"
    by (simp add: write_tier_C)
qed

theorem write_tier_table_witness:
  "writeExtendedFieldValue 12 = Inr (12, [])
   \<and> (\<exists>b. writeExtendedFieldValue 268 = Inr (13, [b]) \<and> uint b = 255)
   \<and> (\<exists>hi lo. writeExtendedFieldValue 65803 = Inr (14, [hi, lo])
         \<and> uint hi * 256 + uint lo = 65534)"
  using write_tier_table [of 12] write_tier_table [of 268] write_tier_table [of 65803]
  by simp

text \<open>
  C4. \<^verbatim>\<open>writeExtendedFieldValue\<close> raises the out-of-range ValueError for every value
  of at least 65804 and returns a result for every value from 0 to 65803;
  \<^verbatim>\<open>readExtendedFieldValue\<close> raises the same error for the nibble 15, whatever the
  bytes. The error is the result of the call, and the callers do not catch it: the loop
  of \<^verbatim>\<open>decode\<close> ends with it at a header byte whose delta nibble is 15, the loop of
  \<^verbatim>\<open>encode\<close> at an instance whose delta is 65804 or more.
\<close>

theorem varint_out_of_range:
  "(65804 \<le> v \<longrightarrow> writeExtendedFieldValue v = Inl ValueError)
   \<and> (0 \<le> v \<and> v \<le> 65803 \<longrightarrow> (\<exists>r. writeExtendedFieldValue v = Inr r))
   \<and> readExtendedFieldValue 15 bs = Inl ValueError
   \<and> (uint b \<noteq> 0xFF \<and> drop_bit 4 (uint b AND 0xF0) = 15 \<longrightarrow>
        decode_loop self n (b # rawdata) = Inl ValueError)
   \<and> (65804 \<le> number opt - cur \<longrightarrow> encode_loop data cur (opt # os) = Inl ValueError)"
proof (intro conjI impI)
  assume "65804 \<le> v"
  then show "writeExtendedFieldValue v = Inl ValueError" by (simp add: write_out_of_range)
next
  assume "0 \<le> v \<and> v \<le> 65803"
  then have "0 \<le> v" "v < 65804" by simp_all
  from read_write [OF this, of "[]"] show "\<exists>r. writeExtendedFieldValue v = Inr r" by blast
next
  show "readExtendedFieldValue 15 bs = Inl ValueError" by (simp add: read_reserved)
next
  assume "uint b \<noteq> 0xFF \<and> drop_bit 4 (uint b AND 0xF0) = 15"
  then show "decode_loop self n (b # rawdata) = Inl ValueError" by (simp add: read_reserved)
next
  assume "65804 \<le> number opt - cur"
  then show "encode_loop data cur (opt # os) = Inl ValueError" by (simp add: write_out_of_range)
qed

theorem varint_out_of_range_witness:
  "writeExtendedFieldValue 65804 = Inl ValueError
   \<and> (\<exists>r. writeExtendedFieldValue 65803 = Inr r)
   \<and> readExtendedFieldValue 15 [1, 2, 3] = Inl ValueError
   \<and> decode_loop Options_init 0 [0xF1, 7] = Inl ValueError
   \<and> encode_loop [] 0 [\<lparr>number = 70000, raw = []\<rparr>] = Inl ValueError"
  using varint_out_of_range [of 65804 "[1, 2, 3]" "0xF1" Options_init 0 "[7]" "\<lparr>number = 70000, raw = []\<rparr>" 0 "[]" "[]"]
    varint_out_of_range [of 65803 "[1, 2, 3]" "0xF1" Options_init 0 "[7]" "\<lparr>number = 70000, raw = []\<rparr>" 0 "[]" "[]"]
  by (simp add: drop_bit_eq_div)

text \<open>
  C5. The claim that a header declaring more value bytes than remain makes
  \<^verbatim>\<open>decode\<close> fail with a truncated-input error does not hold: on the header byte
  \<open>0x05\<close> (delta 0, length 5) followed by the single byte \<open>0x41\<close>, \<^verbatim>\<open>decode\<close>
  returns normally, with an instance of number 0 that holds that single byte.
\<close>

theorem decode_truncated_counterexample:
  "decode Options_init [0x05, 0x41]
     = Inr ([(0, [\<lparr>number = 0, raw = [0x41]\<rparr>])], Str [])"
  by (simp add: decode_def Options_init_def readExtendedFieldValue_def addOption_def
      create_option_decode_def drop_bit_eq_div)

text \<open>
  C5, as the code has it. For an entry whose header byte is not the marker and whose two
  extended fields are read as \<open>delta\<close> and \<open>len\<close>: when at least \<open>len\<close> bytes are left,
  exactly the first \<open>len\<close> of them are the raw value of the instance and the loop goes on
  with the bytes after them; when fewer are left, all of them are the raw value, no error
  is raised, and \<^verbatim>\<open>decode\<close> returns. An error of either extended field ends
  \<^verbatim>\<open>decode\<close> with that error; for a missing extension byte it is the IndexError of
  \<^verbatim>\<open>rawdata[0]\<close> (nibble 13, no byte left) or the error of \<^verbatim>\<open>struct.unpack\<close>
  (nibble 14, fewer than two bytes left).
\<close>

theorem decode_value_slice:
  "(uint b \<noteq> 0xFF
      \<and> readExtendedFieldValue (drop_bit 4 (uint b AND 0xF0)) rawdata = Inr (delta, after_delta)
      \<and> readExtendedFieldValue (uint b AND 0x0F) after_delta = Inr (len, after_len)
    \<longrightarrow>
      (len \<le> int (length after_len) \<longrightarrow>
         (\<exists>v rest. after_len = v @ rest \<and> int (length v) = len
            \<and> decode_loop self n (b # rawdata)
                = decode_loop (addOption self (create_option_decode (n + delta) v))
                    (n + delta) rest))
      \<and> (int (length after_len) < len \<longrightarrow>
           decode_loop self n (b # rawdata)
             = Inr (addOption self (create_option_decode (n + delta) after_len), Str [])))
   \<and> (uint b \<noteq> 0xFF
        \<and> readExtendedFieldValue (drop_bit 4 (uint b AND 0xF0)) rawdata = Inl e
      \<longrightarrow> decode_loop self n (b # rawdata) = Inl e)
   \<and> (uint b \<noteq> 0xFF
        \<and> readExtendedFieldValue (drop_bit 4 (uint b AND 0xF0)) rawdata = Inr (delta, after_delta)
        \<and> readExtendedFieldValue (uint b AND 0x0F) after_delta = Inl e
      \<longrightarrow> decode_loop self n (b # rawdata) = Inl e)
   \<and> readExtendedFieldValue 13 [] = Inl IndexError
   \<and> (length bs < 2 \<longrightarrow> readExtendedFieldValue 14 bs = Inl StructError)"
proof (intro conjI impI)
  assume a: "uint b \<noteq> 0xFF
      \<and> readExtendedFieldValue (drop_bit 4 (uint b AND 0xF0)) rawdata = Inr (delta, after_delta)
      \<and> readExtendedFieldValue (uint b AND 0x0F) after_delta = Inr (len, after_len)"
    and l: "len \<le> int (length after_len)"
  from a have "0 \<le> len" using read_value_range by blast
  with l have "after_len = take (nat len) after_len @ drop (nat len) after_len
      \<and> int (length (take (nat len) after_len)) = len" by simp
  moreover from a \<open>0 \<le> len\<close> have "decode_loop self n (b # rawdata)
      = decode_loop (addOption self (create_option_decode (n + delta) (take (nat len) after_len)))
          (n + delta) (drop (nat len) after_len)" by simp
  ultimately show "\<exists>v rest. after_len = v @ rest \<and> int (length v) = len
            \<and> decode_loop self n (b # rawdata)
                = decode_loop (addOption self (create_option_decode (n + delta) v))
                    (n + delta) rest" by blast
next
  assume a: "uint b \<noteq> 0xFF
      \<and> readExtendedFieldValue (drop_bit 4 (uint b AND 0xF0)) rawdata = Inr (delta, after_delta)
      \<and> readExtendedFieldValue (uint b AND 0x0F) after_delta = Inr (len, after_len)"
    and l: "int (length after_len) < len"
  then show "decode_loop self n (b # rawdata)
             = Inr (addOption self (create_option_decode (n + delta) after_len), Str [])"
    by simp
next
  assume "uint b \<noteq> 0xFF
        \<and> readExtendedFieldValue (drop_bit 4 (uint b AND 0xF0)) rawdata = Inl e"
  then show "decode_loop self n (b # rawdata) = Inl e" by simp
next
  assume "uint b \<noteq> 0xFF
        \<and> readExtendedFieldValue (drop_bit 4 (uint b AND 0xF0)) rawdata = Inr (delta, after_delta)
        \<and> readExtendedFieldValue (uint b AND 0x0F) after_delta = Inl e"
  then show "decode_loop self n (b # rawdata) = Inl e" by simp
next
  show "readExtendedFieldValue 13 [] = Inl IndexError" by (simp add: readExtendedFieldValue_def)
next
  assume "length bs < 2"
  then have "bs = [] \<or> (\<exists>x. bs = [x])" by (cases bs) auto
  then show "readExtendedFieldValue 14 bs = Inl StructError"
    by (auto simp add: readExtendedFieldValue_def struct_unpack_H_def)
qed

theorem decode_value_slice_witness:
  "decode_loop Options_init 0 [0x05, 0x41]
     = Inr (addOption Options_init (create_option_decode 0 [0x41]), Str [])
   \<and> (\<exists>v rest. [0x41, 0x42] = v @ rest \<and> int (length v) = 1
         \<and> decode_loop Options_init 0 [0x01, 0x41, 0x42]
             = decode_loop (addOption Options_init (create_option_decode 0 v)) 0 rest)
   \<and> decode_loop Options_init 0 [0xD0] = Inl IndexError
   \<and> decode_loop Options_init 0 [0x0E, 0x01] = Inl StructError"
  using
    decode_value_slice [where b = "0x05" and rawdata = "[0x41]" and delta = 0
      and after_delta = "[0x41]" and len = 5 and after_len = "[0x41]" and self = Options_init
      and n = 0 and e = IndexError and bs = "[]"]
    decode_value_slice [where b = "0x01" and rawdata = "[0x41, 0x42]" and delta = 0
      and after_delta = "[0x41, 0x42]" and len = 1 and after_len = "[0x41, 0x42]"
      and self = Options_init and n = 0 and e = IndexError and bs = "[]"]
    decode_value_slice [where b = "0xD0" and rawdata = "[]" and delta = 0
      and after_delta = "[]" and len = 0 and after_len = "[]"
      and self = Options_init and n = 0 and e = IndexError and bs = "[]"]
    decode_value_slice [where b = "0x0E" and rawdata = "[0x01]" and delta = 0
      and after_delta = "[0x01]" and len = 0 and after_len = "[]"
      and self = Options_init and n = 0 and e = StructError and bs = "[0x01]"]
  by (simp add: readExtendedFieldValue_def struct_unpack_H_def drop_bit_eq_div)

text \<open>
  C6. For every container reached from the empty one by calls of \<^verbatim>\<open>addOption\<close> and
  \<^verbatim>\<open>deleteOption\<close>, \<^verbatim>\<open>optionList()\<close> returns; what it yields is in ascending
  order of number, holds under every number exactly the sequence stored for it, and that
  sequence is the instances of the number in the order they were added. In all, it is
  the stable sort by number of the instances added and not deleted since.
\<close>

theorem optionList_order:
  "\<exists>xs. optionList (run ms) = Inr xs
     \<and> xs = sort_key number (instances ms)
     \<and> sorted (map number xs)
     \<and> (\<forall>n. filter (\<lambda>x. number x = n) xs = getOption (run ms) n)
     \<and> (\<forall>n. getOption (run ms) n = filter (\<lambda>x. number x = n) (instances ms))"
proof -
  have "sorted (map number (sort_key number (instances ms)))" by (rule sorted_sort_key)
  moreover have "\<forall>n. filter (\<lambda>x. number x = n) (sort_key number (instances ms)) = getOption (run ms) n"
    by (simp add: sort_key_stable getOption_run)
  ultimately show ?thesis by (simp add: optionList_run getOption_run)
qed

theorem optionList_order_witness:
  "optionList (run [Add \<lparr>number = 11, raw = [1]\<rparr>, Add \<lparr>number = 5, raw = [2]\<rparr>,
       Add \<lparr>number = 3, raw = []\<rparr>, Add \<lparr>number = 11, raw = [4]\<rparr>, Delete 5])
     = Inr [\<lparr>number = 3, raw = []\<rparr>, \<lparr>number = 11, raw = [1]\<rparr>, \<lparr>number = 11, raw = [4]\<rparr>]"
  using optionList_order [of "[Add \<lparr>number = 11, raw = [1]\<rparr>, Add \<lparr>number = 5, raw = [2]\<rparr>,
       Add \<lparr>number = 3, raw = []\<rparr>, Add \<lparr>number = 11, raw = [4]\<rparr>, Delete 5]"]
  by (simp add: instances_def)

text \<open>
  C7. The payload returned by \<^verbatim>\<open>decode\<close>. On the empty input the loop does not run,
  the container is left empty, and the value returned is the \<^verbatim>\<open>str\<close> literal
  \<^verbatim>\<open>''\<close>, which is not the empty \<^verbatim>\<open>bytes\<close>; on the marker byte alone the value
  returned is the \<^verbatim>\<open>bytes\<close> after it, here the empty \<^verbatim>\<open>bytes\<close>. (Lemma
  \<open>decode_marker\<close> gives the bytes after a marker at any entry boundary, lemma
  \<open>decode_without_marker\<close> the \<^verbatim>\<open>str\<close> for every input without the byte 0xFF.)
\<close>

theorem decode_empty_returns_str:
  "decode Options_init [] = Inr (Options_init, Str [])
   \<and> Str [] \<noteq> Bytes []
   \<and> decode Options_init [0xFF] = Inr (Options_init, Bytes [])"
  by (simp add: decode_def)

text \<open>
  C8. The single-value view of number 23 (Block2) on a container that holds one instance
  of that number. Assigning \<^verbatim>\<open>None\<close> to the view removes the instance. Deleting the
  view calls \<^verbatim>\<open>_deleter\<close> with the container alone, its parameter \<^verbatim>\<open>value\<close> is
  left unbound, and the call raises TypeError: the instance stays. (Lemma
  \<open>view_delete_raises\<close>: so for every container and number.)
\<close>

theorem view_delete_TypeError:
  "property_delete (single_value_view_deleter 23)
       (addOption Options_init \<lparr>number = 23, raw = [1]\<rparr>) = Inl TypeError
   \<and> property_set (single_value_view_setter 23)
       (addOption Options_init \<lparr>number = 23, raw = [1]\<rparr>) PyNone = Inr Options_init
   \<and> getOption (addOption Options_init \<lparr>number = 23, raw = [1]\<rparr>) 23 = [\<lparr>number = 23, raw = [1]\<rparr>]
   \<and> getOption Options_init 23 = []"
  by (simp add: view_delete_raises view_set_None addOption_def Options_init_def
      deleteOption_def getOption_def)

text \<open>
  C9. The claim that \<^verbatim>\<open>encode()\<close> returns the header bytes for every container does
  not hold: for the container that holds one instance of number 70000, the delta 70000
  is beyond the last tier and \<^verbatim>\<open>encode()\<close> raises ValueError, in the store as well
  as on the dict of values that the store stands for.
\<close>

theorem encode_raises_counterexample:
  "wf_store \<lparr>heap = [0 \<mapsto> Dict [(70000, 1)], 1 \<mapsto> OptList [\<lparr>number = 70000, raw = []\<rparr>]],
       fresh = 2\<rparr> 0
   \<and> options_of \<lparr>heap = [0 \<mapsto> Dict [(70000, 1)], 1 \<mapsto> OptList [\<lparr>number = 70000, raw = []\<rparr>]],
       fresh = 2\<rparr> 0 = addOption Options_init \<lparr>number = 70000, raw = []\<rparr>
   \<and> fst (h_encode 0 \<lparr>heap = [0 \<mapsto> Dict [(70000, 1)],
       1 \<mapsto> OptList [\<lparr>number = 70000, raw = []\<rparr>]], fresh = 2\<rparr>) = Inl ValueError
   \<and> fst (encode (addOption Options_init \<lparr>number = 70000, raw = []\<rparr>)) = Inl ValueError"
proof -
  let ?s = "\<lparr>heap = [0 \<mapsto> Dict [(70000, 1)], 1 \<mapsto> OptList [\<lparr>number = 70000, raw = []\<rparr>]],
       fresh = 2\<rparr>"
  have wf: "wf_store ?s 0" by (simp add: wf_store_def is_opt_list_def)
  have o: "options_of ?s 0 = addOption Options_init \<lparr>number = 70000, raw = []\<rparr>"
    by (simp add: options_of_def list_at_def addOption_def Options_init_def)
  have e: "fst (encode (addOption Options_init \<lparr>number = 70000, raw = []\<rparr>)) = Inl ValueError"
    by (simp add: encode_def addOption_def Options_init_def optionList_def
        writeExtendedFieldValue_def)
  from h_encode_refines [OF wf] o e have "fst (h_encode 0 ?s) = Inl ValueError" by simp
  with wf o e show ?thesis by simp
qed

text \<open>
  C9, as the code has it. For every container whose dict and lists are in order,
  \<^verbatim>\<open>encode()\<close> either returns the header bytes or raises the out-of-range ValueError,
  and in both cases leaves every object that was there before the call as it was: the
  dict and every list in it, hence \<^verbatim>\<open>getOption\<close> of every number and
  \<^verbatim>\<open>optionList()\<close>. Its writes go to the list \<^verbatim>\<open>data\<close> and to the list that
  \<^verbatim>\<open>sorted\<close> builds, both created by the call. What it returns is what the method
  on values returns. (Lemma \<open>h_run_wf\<close>: the containers reached by \<^verbatim>\<open>addOption\<close> and
  \<^verbatim>\<open>deleteOption\<close> are in order; lemma \<open>dict_inv_run\<close>: so are their dicts.)
\<close>

theorem encode_leaves_container:
  assumes "wf_store s self" and "dict_inv (options_of s self)"
  shows "(\<forall>a. a < fresh s \<longrightarrow> heap (snd (h_encode self s)) a = heap s a)
       \<and> options_of (snd (h_encode self s)) self = options_of s self
       \<and> (\<forall>n. getOption (options_of (snd (h_encode self s)) self) n
               = getOption (options_of s self) n)
       \<and> optionList (options_of (snd (h_encode self s)) self) = optionList (options_of s self)
       \<and> fst (h_encode self s) = fst (encode (options_of s self))
       \<and> ((\<exists>bs. fst (h_encode self s) = Inr bs) \<or> fst (h_encode self s) = Inl ValueError)"
proof -
  obtain res s' where run: "h_encode self s = (res, s')" by (cases "h_encode self s")
  from h_encode_frame [OF run] have frame: "\<forall>a. a < fresh s \<longrightarrow> heap s' a = heap s a" .
  with assms(1) have same: "options_of s' self = options_of s self" by (rule options_of_frame)
  have ref: "res = fst (encode (options_of s self))"
    using h_encode_refines [OF assms(1)] run by simp
  have "(\<exists>bs. res = Inr bs) \<or> res = Inl ValueError"
  proof (cases res)
    case (Inl e)
    with ref have "fst (encode (options_of s self)) = Inl e" by simp
    with assms(2) have "e = ValueError" by (rule encode_error)
    with Inl show ?thesis by simp
  next
    case (Inr bs)
    then show ?thesis by simp
  qed
  with frame same ref run show ?thesis by simp
qed

theorem encode_leaves_container_witness:
  "wf_store \<lparr>heap = [0 \<mapsto> Dict [(11, 1), (5, 2)],
        1 \<mapsto> OptList [\<lparr>number = 11, raw = [1, 2, 3]\<rparr>, \<lparr>number = 11, raw = [9]\<rparr>],
        2 \<mapsto> OptList [\<lparr>number = 5, raw = []\<rparr>]], fresh = 3\<rparr> 0
   \<and> fst (h_encode 0 \<lparr>heap = [0 \<mapsto> Dict [(11, 1), (5, 2)],
        1 \<mapsto> OptList [\<lparr>number = 11, raw = [1, 2, 3]\<rparr>, \<lparr>number = 11, raw = [9]\<rparr>],
        2 \<mapsto> OptList [\<lparr>number = 5, raw = []\<rparr>]], fresh = 3\<rparr>)
       = Inr [0x50, 0x63, 1, 2, 3, 0x01, 9]
   \<and> options_of (snd (h_encode 0 \<lparr>heap = [0 \<mapsto> Dict [(11, 1), (5, 2)],
        1 \<mapsto> OptList [\<lparr>number = 11, raw = [1, 2, 3]\<rparr>, \<lparr>number = 11, raw = [9]\<rparr>],
        2 \<mapsto> OptList [\<lparr>number = 5, raw = []\<rparr>]], fresh = 3\<rparr>)) 0
       = [(11, [\<lparr>number = 11, raw = [1, 2, 3]\<rparr>, \<lparr>number = 11, raw = [9]\<rparr>]),
          (5, [\<lparr>number = 5, raw = []\<rparr>])]"
proof -
  let ?s = "\<lparr>heap = [0 \<mapsto> Dict [(11, 1), (5, 2)],
        1 \<mapsto> OptList [\<lparr>number = 11, raw = [1, 2, 3]\<rparr>, \<lparr>number = 11, raw = [9]\<rparr>],
        2 \<mapsto> OptList [\<lparr>number = 5, raw = []\<rparr>]], fresh = 3\<rparr>"
  have o: "options_of ?s 0 = [(11, [\<lparr>number = 11, raw = [1, 2, 3]\<rparr>, \<lparr>number = 11, raw = [9]\<rparr>]),
          (5, [\<lparr>number = 5, raw = []\<rparr>])]"
    by (simp add: options_of_def list_at_def)
  have wf: "wf_store ?s 0" by (simp add: wf_store_def is_opt_list_def)
  have inv: "dict_inv (options_of ?s 0)" unfolding o by (simp add: dict_inv_def)
  have e: "fst (encode [(11, [\<lparr>number = 11, raw = [1, 2, 3]\<rparr>, \<lparr>number = 11, raw = [9]\<rparr>]),
          (5, [\<lparr>number = 5, raw = []\<rparr>])]) = Inr [0x50, 0x63, 1, 2, 3, 0x01, 9]"
    by (simp add: encode_def optionList_def opt_length_def opt_encode_def
        writeExtendedFieldValue_def py_bytes_def push_bit_eq_mult)
  from encode_leaves_container [OF wf inv]
  have "options_of (snd (h_encode 0 ?s)) 0 = options_of ?s 0"
    and "fst (h_encode 0 ?s) = fst (encode (options_of ?s 0))"
    by blast+
  then have "options_of (snd (h_encode 0 ?s)) 0 =
        [(11, [\<lparr>number = 11, raw = [1, 2, 3]\<rparr>, \<lparr>number = 11, raw = [9]\<rparr>]),
         (5, [\<lparr>number = 5, raw = []\<rparr>])]"
    and "fst (h_encode 0 ?s) = Inr [0x50, 0x63, 1, 2, 3, 0x01, 9]"
    by (simp_all only: o e)
  with wf show ?thesis by (intro conjI)
qed

text \<open>
  C10. \<^verbatim>\<open>readExtendedFieldValue\<close> with nibble 14 and the extension bytes
  \<open>0xFF 0xFF\<close> returns 65804, and \<^verbatim>\<open>writeExtendedFieldValue(65804)\<close> raises
  ValueError. The values the reader can return are those from 0 to 65804, the values the
  writer accepts those from 0 to 65803.
\<close>

theorem decode_accepts_more:
  "readExtendedFieldValue 14 (0xFF # 0xFF # rest) = Inr (65804, rest)
   \<and> writeExtendedFieldValue 65804 = Inl ValueError
   \<and> {v. \<exists>nibble bs r. readExtendedFieldValue nibble bs = Inr (v, r)} = {0..65804}
   \<and> {v. \<exists>r. writeExtendedFieldValue v = Inr r} = {0..65803}"
proof (intro conjI)
  show "readExtendedFieldValue 14 (0xFF # 0xFF # rest) = Inr (65804, rest)"
    by (simp add: read_tier_C)
  show "writeExtendedFieldValue 65804 = Inl ValueError"
    by (simp add: write_out_of_range)
  show "{v. \<exists>nibble bs r. readExtendedFieldValue nibble bs = Inr (v, r)} = {0..65804}"
    by (rule read_values)
  show "{v. \<exists>r. writeExtendedFieldValue v = Inr r} = {0..65803}"
    by (rule write_values)
qed

end
